theory Spec2Isabelle
  imports Complex_Main "HOL-Library.Code_Target_Nat" "HOL-Library.Sublist"
begin

section \<open>JSON values and the platform functions the server calls\<close>

text \<open>
  The server (\<^verbatim>\<open>src/index.ts\<close>) handles every message, every tool payload and both
  opaque tokens as JSON. A value is modelled as the tree below. Text is a list of 8-bit
  characters: the model is exact for ASCII text, where the number of characters, of
  UTF-16 code units and of UTF-8 bytes agree. A number is an integer (\<open>JNum\<close>, exact in
  JavaScript below \<open>2^53\<close>) or a number that is not an integer (\<open>JReal\<close>, which carries
  the decimal text that stands for it). An object is the list of its members in order.
\<close>

datatype json =
    JNull
  | JBool bool
  | JNum int
  | JReal string
  | JStr string
  | JArr "json list"
  | JObj "(string \<times> json) list"

text \<open>
  Property access \<^verbatim>\<open>value.key\<close> on a value that is not \<^verbatim>\<open>null\<close>: \<open>None\<close> is
  \<^verbatim>\<open>undefined\<close>. A later member of the same name overrides an earlier one, as in an
  object built by \<^verbatim>\<open>JSON.parse\<close>. Inherited properties (\<^verbatim>\<open>constructor\<close>,
  \<^verbatim>\<open>length\<close> of an array, ...) are not modelled.
\<close>

fun get_prop :: "json \<Rightarrow> string \<Rightarrow> json option" where
  "get_prop (JObj ms) k = map_of (rev ms) k"
| "get_prop _ k = None"

text \<open>\<^verbatim>\<open>!!value && typeof value === "object"\<close>: objects and arrays.\<close>

fun is_object :: "json \<Rightarrow> bool" where
  "is_object (JObj ms) = True"
| "is_object (JArr xs) = True"
| "is_object _ = False"

subsection \<open>\<^verbatim>\<open>JSON.stringify\<close>\<close>

definition digit_char :: "nat \<Rightarrow> char" where
  "digit_char d = char_of (48 + d)"

fun digits_of_nat :: "nat \<Rightarrow> string" where
  "digits_of_nat n =
     (if n < 10 then [digit_char n] else digits_of_nat (n div 10) @ [digit_char (n mod 10)])"

declare digits_of_nat.simps [simp del]

definition int_string :: "int \<Rightarrow> string" where
  "int_string i = (if i < 0 then CHR ''-'' # digits_of_nat (nat (- i)) else digits_of_nat (nat i))"

definition hex_char :: "nat \<Rightarrow> char" where
  "hex_char d = (if d < 10 then char_of (48 + d) else char_of (87 + d))"

text \<open>The escapes of \<^verbatim>\<open>JSON.stringify\<close> (QuoteJSONString).\<close>

definition escape_char :: "char \<Rightarrow> string" where
  "escape_char c =
     (if c = CHR 0x22 then [CHR 0x5C, CHR 0x22]
      else if c = CHR 0x5C then [CHR 0x5C, CHR 0x5C]
      else if c = CHR 0x08 then [CHR 0x5C, CHR ''b'']
      else if c = CHR 0x0C then [CHR 0x5C, CHR ''f'']
      else if c = CHR 0x0A then [CHR 0x5C, CHR ''n'']
      else if c = CHR 0x0D then [CHR 0x5C, CHR ''r'']
      else if c = CHR 0x09 then [CHR 0x5C, CHR ''t'']
      else if (of_char c :: nat) < 32
        then [CHR 0x5C, CHR ''u'', CHR ''0'', CHR ''0'',
              hex_char (of_char c div 16), hex_char (of_char c mod 16)]
      else [c])"

definition quote :: "string \<Rightarrow> string" where
  "quote s = CHR 0x22 # concat (map escape_char s) @ [CHR 0x22]"

fun join :: "string \<Rightarrow> string list \<Rightarrow> string" where
  "join sep [] = []"
| "join sep [x] = x"
| "join sep (x # y # ys) = x @ sep @ join sep (y # ys)"

fun stringify :: "json \<Rightarrow> string" where
  "stringify JNull = ''null''"
| "stringify (JBool b) = (if b then ''true'' else ''false'')"
| "stringify (JNum i) = int_string i"
| "stringify (JReal s) = s"
| "stringify (JStr s) = quote s"
| "stringify (JArr xs) = ''['' @ join '','' (map stringify xs) @ '']''"
| "stringify (JObj ms) =
     ''{'' @ join '','' (map (\<lambda>(k, v). quote k @ '':'' @ stringify v) ms) @ ''}''"

subsection \<open>\<^verbatim>\<open>Buffer\<close>: base64url\<close>

text \<open>
  \<^verbatim>\<open>Buffer.from(text).toString("base64url")\<close>: the bytes in groups of three, each group
  as four 6-bit values, in the URL-safe alphabet \<^verbatim>\<open>A-Z a-z 0-9 - _\<close> and without padding.
\<close>

definition b64url_char :: "nat \<Rightarrow> char" where
  "b64url_char n =
     (if n < 26 then char_of (65 + n)
      else if n < 52 then char_of (71 + n)
      else if n < 62 then char_of (n - 4)
      else if n = 62 then CHR ''-'' else CHR ''_'')"

fun b64_sextets :: "nat list \<Rightarrow> nat list" where
  "b64_sextets (a # b # c # bs) =
     [a div 4, (a mod 4) * 16 + b div 16, (b mod 16) * 4 + c div 64, c mod 64] @ b64_sextets bs"
| "b64_sextets [a, b] = [a div 4, (a mod 4) * 16 + b div 16, (b mod 16) * 4]"
| "b64_sextets [a] = [a div 4, (a mod 4) * 16]"
| "b64_sextets [] = []"

definition base64url_encode :: "string \<Rightarrow> string" where
  "base64url_encode s = map b64url_char (b64_sextets (map of_char s))"

text \<open>
  \<^verbatim>\<open>Buffer.from(token, "base64url")\<close> never fails: a character outside both base64
  alphabets is skipped, \<^verbatim>\<open>=\<close> ends the input, and an incomplete last group gives the
  bytes it holds.
\<close>

definition unbase64 :: "char \<Rightarrow> nat option" where
  "unbase64 c =
     (let n = (of_char c :: nat) in
      if 65 \<le> n \<and> n \<le> 90 then Some (n - 65)
      else if 97 \<le> n \<and> n \<le> 122 then Some (n - 71)
      else if 48 \<le> n \<and> n \<le> 57 then Some (n + 4)
      else if c = CHR ''+'' \<or> c = CHR ''-'' then Some 62
      else if c = CHR ''/'' \<or> c = CHR ''_'' then Some 63
      else None)"

fun b64_values :: "string \<Rightarrow> nat list" where
  "b64_values [] = []"
| "b64_values (c # cs) =
     (if c = CHR ''='' then []
      else case unbase64 c of None \<Rightarrow> b64_values cs | Some v \<Rightarrow> v # b64_values cs)"

fun b64_bytes :: "nat list \<Rightarrow> nat list" where
  "b64_bytes (w # x # y # z # vs) =
     [w * 4 + x div 16, (x mod 16) * 16 + y div 4, (y mod 4) * 64 + z] @ b64_bytes vs"
| "b64_bytes [w, x, y] = [w * 4 + x div 16, (x mod 16) * 16 + y div 4]"
| "b64_bytes [w, x] = [w * 4 + x div 16]"
| "b64_bytes _ = []"

definition base64url_decode :: "string \<Rightarrow> string" where
  "base64url_decode s = map char_of (b64_bytes (b64_values s))"

subsection \<open>\<^verbatim>\<open>JSON.parse\<close>\<close>

text \<open>
  The text is cut into tokens, and the tokens are read by recursive descent. \<open>None\<close> is
  the \<^verbatim>\<open>SyntaxError\<close> of \<^verbatim>\<open>JSON.parse\<close>. An escape \<^verbatim>\<open>\uXXXX\<close> beyond the 8-bit
  range is outside the modelled text and is refused.
\<close>

definition is_digit :: "char \<Rightarrow> bool" where
  "is_digit c = (48 \<le> (of_char c :: nat) \<and> (of_char c :: nat) \<le> 57)"

definition digit_val :: "char \<Rightarrow> nat" where
  "digit_val c = of_char c - 48"

definition nat_of_digits :: "string \<Rightarrow> nat" where
  "nat_of_digits ds = foldl (\<lambda>acc c. acc * 10 + digit_val c) 0 ds"

definition hex_val :: "char \<Rightarrow> nat option" where
  "hex_val c =
     (let n = (of_char c :: nat) in
      if 48 \<le> n \<and> n \<le> 57 then Some (n - 48)
      else if 97 \<le> n \<and> n \<le> 102 then Some (n - 87)
      else if 65 \<le> n \<and> n \<le> 70 then Some (n - 55)
      else None)"

definition hex4 :: "char \<Rightarrow> char \<Rightarrow> char \<Rightarrow> char \<Rightarrow> nat option" where
  "hex4 a b c d =
     (case (hex_val a, hex_val b, hex_val c, hex_val d) of
        (Some w, Some x, Some y, Some z) \<Rightarrow> Some (((w * 16 + x) * 16 + y) * 16 + z)
      | _ \<Rightarrow> None)"

definition unescape :: "char \<Rightarrow> char option" where
  "unescape e =
     (if e = CHR 0x22 then Some (CHR 0x22)
      else if e = CHR 0x5C then Some (CHR 0x5C)
      else if e = CHR ''/'' then Some (CHR ''/'')
      else if e = CHR ''b'' then Some (CHR 0x08)
      else if e = CHR ''f'' then Some (CHR 0x0C)
      else if e = CHR ''n'' then Some (CHR 0x0A)
      else if e = CHR ''r'' then Some (CHR 0x0D)
      else if e = CHR ''t'' then Some (CHR 0x09)
      else None)"

text \<open>The text after an opening quote: the string it holds and what follows the closing quote.\<close>

fun lex_string :: "string \<Rightarrow> (string \<times> string) option" where
  "lex_string [] = None"
| "lex_string (c # cs) =
     (if c = CHR 0x22 then Some ([], cs)
      else if c = CHR 0x5C then
        (case cs of
           [] \<Rightarrow> None
         | e # cs' \<Rightarrow>
             if e = CHR ''u'' then
               (case cs' of
                  h1 # h2 # h3 # h4 # cs'' \<Rightarrow>
                    (case hex4 h1 h2 h3 h4 of
                       None \<Rightarrow> None
                     | Some cp \<Rightarrow>
                         if cp < 256
                         then map_option (\<lambda>(s, r). (char_of cp # s, r)) (lex_string cs'')
                         else None)
                | _ \<Rightarrow> None)
             else
               (case unescape e of
                  None \<Rightarrow> None
                | Some ch \<Rightarrow> map_option (\<lambda>(s, r). (ch # s, r)) (lex_string cs')))
      else if (of_char c :: nat) < 32 then None
      else map_option (\<lambda>(s, r). (c # s, r)) (lex_string cs))"

text \<open>
  A decimal number \<open>\<plusminus> m \<times> 10^e\<close>: the integer it is, or \<open>None\<close> when it is not an
  integer. (JavaScript rounds to a double; the model is exact.)
\<close>

definition scaled_int :: "bool \<Rightarrow> nat \<Rightarrow> int \<Rightarrow> int option" where
  "scaled_int neg m e =
     (let sign = (if neg then - 1 else 1 :: int) in
      if 0 \<le> e then Some (sign * int (m * 10 ^ nat e))
      else if m mod 10 ^ nat (- e) = 0 then Some (sign * int (m div 10 ^ nat (- e)))
      else None)"

text \<open>An optional exponent part \<^verbatim>\<open>e\<close>, \<^verbatim>\<open>e+\<close>, \<^verbatim>\<open>e-\<close> with at least one digit.\<close>

definition lex_exponent :: "string \<Rightarrow> (int \<times> string) option" where
  "lex_exponent cs =
     (case cs of
        [] \<Rightarrow> Some (0, cs)
      | e # r \<Rightarrow>
          if e = CHR ''e'' \<or> e = CHR ''E'' then
            (let neg = (case r of [] \<Rightarrow> False | g # _ \<Rightarrow> g = CHR ''-'');
                 r1 = (case r of [] \<Rightarrow> r | g # r' \<Rightarrow> if g = CHR ''-'' \<or> g = CHR ''+'' then r' else r);
                 es = takeWhile is_digit r1
             in if es = [] then None
                else Some ((if neg then - int (nat_of_digits es) else int (nat_of_digits es)),
                           dropWhile is_digit r1))
          else Some (0, cs))"

text \<open>An optional fraction part: a point and at least one digit.\<close>

definition lex_fraction :: "string \<Rightarrow> (string \<times> string) option" where
  "lex_fraction cs =
     (case cs of
        [] \<Rightarrow> Some ([], cs)
      | d # r \<Rightarrow>
          if d = CHR ''.'' then
            (if takeWhile is_digit r = [] then None
             else Some (takeWhile is_digit r, dropWhile is_digit r))
          else Some ([], cs))"

text \<open>A JSON number: \<^verbatim>\<open>-? (0 | [1-9][0-9]*) (. [0-9]+)? ([eE] [+-]? [0-9]+)?\<close>.\<close>

definition lex_number :: "string \<Rightarrow> (json \<times> string) option" where
  "lex_number cs =
     (let neg = (case cs of [] \<Rightarrow> False | g # _ \<Rightarrow> g = CHR ''-'');
          cs1 = (if neg then tl cs else cs);
          ds = takeWhile is_digit cs1
      in if ds = [] \<or> (1 < length ds \<and> hd ds = CHR ''0'') then None
         else
           (case lex_fraction (dropWhile is_digit cs1) of
              None \<Rightarrow> None
            | Some (fs, cs3) \<Rightarrow>
                (case lex_exponent cs3 of
                   None \<Rightarrow> None
                 | Some (ex, rest) \<Rightarrow>
                     Some ((case scaled_int neg (nat_of_digits (ds @ fs)) (ex - int (length fs)) of
                              Some i \<Rightarrow> JNum i
                            | None \<Rightarrow> JReal (take (length cs - length rest) cs)),
                           rest))))"

datatype token =
    TLBrace | TRBrace | TLBrack | TRBrack | TColon | TComma
  | TStr string
  | TAtom json

definition is_ws :: "char \<Rightarrow> bool" where
  "is_ws c = (c = CHR 0x20 \<or> c = CHR 0x09 \<or> c = CHR 0x0A \<or> c = CHR 0x0D)"

lemma lex_string_shorter: "lex_string cs = Some (s, r) \<Longrightarrow> length r < Suc (length cs)"
proof (induction cs arbitrary: s r rule: lex_string.induct)
  case 1
  then show ?case by simp
next
  case (2 c cs)
  then show ?case
    by (fastforce split: if_splits list.splits option.splits)
qed

lemma lex_exponent_shorter: "lex_exponent cs = Some (e, r) \<Longrightarrow> length r \<le> length cs"
proof -
  have drop_le: "length (dropWhile is_digit xs) \<le> length xs" for xs
    by (simp add: length_dropWhile_le)
  assume "lex_exponent cs = Some (e, r)"
  then show ?thesis
    using drop_le
    by (auto simp: lex_exponent_def Let_def le_SucI split: list.splits if_splits)
qed

lemma lex_fraction_shorter: "lex_fraction cs = Some (fs, r) \<Longrightarrow> length r \<le> length cs"
  by (auto simp: lex_fraction_def length_dropWhile_le le_SucI split: list.splits if_splits)

lemma lex_number_shorter: "lex_number cs = Some (v, r) \<Longrightarrow> length r < length cs"
proof -
  assume a: "lex_number cs = Some (v, r)"
  define cs1 where "cs1 = (if (case cs of [] \<Rightarrow> False | g # _ \<Rightarrow> g = CHR ''-'') then tl cs else cs)"
  from a have ds: "takeWhile is_digit cs1 \<noteq> []"
    by (auto simp: lex_number_def Let_def cs1_def split: if_splits)
  from a obtain fs cs3 ex where
    fr: "lex_fraction (dropWhile is_digit cs1) = Some (fs, cs3)" and
    ex: "lex_exponent cs3 = Some (ex, r)"
    unfolding lex_number_def Let_def cs1_def [symmetric]
    by (auto split: if_splits option.splits)
  have "length (dropWhile is_digit cs1) < length cs1"
  proof -
    have "length (takeWhile is_digit cs1) + length (dropWhile is_digit cs1) = length cs1"
      by (metis length_append takeWhile_dropWhile_id)
    with ds show ?thesis by (cases "takeWhile is_digit cs1") auto
  qed
  moreover have "length cs1 \<le> length cs"
    by (simp add: cs1_def)
  moreover have "length cs3 \<le> length (dropWhile is_digit cs1)"
    using fr by (rule lex_fraction_shorter)
  moreover have "length r \<le> length cs3"
    using ex by (rule lex_exponent_shorter)
  ultimately show ?thesis by linarith
qed

function tokenize :: "string \<Rightarrow> token list option" where
  "tokenize [] = Some []"
| "tokenize (c # cs) =
     (if is_ws c then tokenize cs
      else if c = CHR ''{'' then map_option ((#) TLBrace) (tokenize cs)
      else if c = CHR ''}'' then map_option ((#) TRBrace) (tokenize cs)
      else if c = CHR ''['' then map_option ((#) TLBrack) (tokenize cs)
      else if c = CHR '']'' then map_option ((#) TRBrack) (tokenize cs)
      else if c = CHR '':'' then map_option ((#) TColon) (tokenize cs)
      else if c = CHR '','' then map_option ((#) TComma) (tokenize cs)
      else if c = CHR 0x22 then
        (case lex_string cs of
           None \<Rightarrow> None
         | Some (s, r) \<Rightarrow> map_option ((#) (TStr s)) (tokenize r))
      else if c = CHR ''-'' \<or> is_digit c then
        (case lex_number (c # cs) of
           None \<Rightarrow> None
         | Some (v, r) \<Rightarrow> map_option ((#) (TAtom v)) (tokenize r))
      else if take 4 (c # cs) = ''true'' then map_option ((#) (TAtom (JBool True))) (tokenize (drop 3 cs))
      else if take 5 (c # cs) = ''false'' then map_option ((#) (TAtom (JBool False))) (tokenize (drop 4 cs))
      else if take 4 (c # cs) = ''null'' then map_option ((#) (TAtom JNull)) (tokenize (drop 3 cs))
      else None)"
  by pat_completeness auto
termination
proof (relation "measure length")
  show "wf (measure length)" by simp
next
  fix c cs x2 x y
  assume "lex_string cs = Some x2" "(x, y) = x2"
  then show "(y, c # cs) \<in> measure length"
    using lex_string_shorter [of cs x y] by simp
next
  fix c cs x2 x y
  assume "lex_number (c # cs) = Some x2" "(x, y) = x2"
  then show "(y, c # cs) \<in> measure length"
    using lex_number_shorter [of "c # cs" x y] by simp
qed auto

declare tokenize.simps [simp del]

text \<open>
  Recursive descent over the tokens. The first argument bounds the depth of the calls;
  \<open>json_parse\<close> gives it twice the number of tokens, which no input exhausts, since
  every second call reads a token.
\<close>

fun parse_value :: "nat \<Rightarrow> token list \<Rightarrow> (json \<times> token list) option"
  and parse_elements :: "nat \<Rightarrow> token list \<Rightarrow> (json list \<times> token list) option"
  and parse_members :: "nat \<Rightarrow> token list \<Rightarrow> ((string \<times> json) list \<times> token list) option"
where
  "parse_value 0 ts = None"
| "parse_value (Suc n) ts =
     (case ts of
        TAtom v # r \<Rightarrow> Some (v, r)
      | TStr s # r \<Rightarrow> Some (JStr s, r)
      | TLBrack # TRBrack # r \<Rightarrow> Some (JArr [], r)
      | TLBrack # r \<Rightarrow> map_option (\<lambda>(xs, r'). (JArr xs, r')) (parse_elements n r)
      | TLBrace # TRBrace # r \<Rightarrow> Some (JObj [], r)
      | TLBrace # r \<Rightarrow> map_option (\<lambda>(ms, r'). (JObj ms, r')) (parse_members n r)
      | _ \<Rightarrow> None)"
| "parse_elements 0 ts = None"
| "parse_elements (Suc n) ts =
     (case parse_value n ts of
        None \<Rightarrow> None
      | Some (v, r) \<Rightarrow>
          (case r of
             TComma # r' \<Rightarrow> map_option (\<lambda>(vs, r''). (v # vs, r'')) (parse_elements n r')
           | TRBrack # r' \<Rightarrow> Some ([v], r')
           | _ \<Rightarrow> None))"
| "parse_members 0 ts = None"
| "parse_members (Suc n) ts =
     (case ts of
        TStr k # TColon # r \<Rightarrow>
          (case parse_value n r of
             None \<Rightarrow> None
           | Some (v, r') \<Rightarrow>
               (case r' of
                  TComma # r'' \<Rightarrow> map_option (\<lambda>(ms, r3). ((k, v) # ms, r3)) (parse_members n r'')
                | TRBrace # r'' \<Rightarrow> Some ([(k, v)], r'')
                | _ \<Rightarrow> None))
      | _ \<Rightarrow> None)"

definition json_parse :: "string \<Rightarrow> json option" where
  "json_parse s =
     (case tokenize s of
        None \<Rightarrow> None
      | Some ts \<Rightarrow>
          (case parse_value (2 * length ts + 2) ts of
             Some (v, []) \<Rightarrow> Some v
           | _ \<Rightarrow> None))"

subsection \<open>\<^verbatim>\<open>Number(value)\<close>\<close>

text \<open>
  What \<^verbatim>\<open>Number\<close> makes of a parsed JSON value or of \<^verbatim>\<open>undefined\<close>, as far as
  \<^verbatim>\<open>Number.isInteger\<close> and a comparison with zero can tell: not a number, an integer,
  or a number that is not an integer (a fraction or an infinity).
\<close>

datatype jsnumber = NaN | Integer int | NonInteger

definition is_js_space :: "char \<Rightarrow> bool" where
  "is_js_space c = ((of_char c :: nat) \<in> {9, 10, 11, 12, 13, 32, 160})"

definition trim :: "string \<Rightarrow> string" where
  "trim s = rev (dropWhile is_js_space (rev (dropWhile is_js_space s)))"

definition radix_number :: "nat \<Rightarrow> string \<Rightarrow> jsnumber" where
  "radix_number b ds =
     (if ds \<noteq> [] \<and> list_all (\<lambda>c. case hex_val c of None \<Rightarrow> False | Some v \<Rightarrow> v < b) ds
      then Integer (int (foldl (\<lambda>acc c. acc * b + the (hex_val c)) 0 ds))
      else NaN)"

definition decimal_number :: "string \<Rightarrow> jsnumber" where
  "decimal_number t =
     (let neg = (case t of [] \<Rightarrow> False | g # _ \<Rightarrow> g = CHR ''-'');
          t1 = (case t of [] \<Rightarrow> t | g # r \<Rightarrow> if g = CHR ''-'' \<or> g = CHR ''+'' then r else t)
      in if t1 = ''Infinity'' then NonInteger
         else
           (let ds = takeWhile is_digit t1;
                r = dropWhile is_digit t1;
                fs = (case r of [] \<Rightarrow> [] | d # r' \<Rightarrow> if d = CHR ''.'' then takeWhile is_digit r' else []);
                r2 = (case r of [] \<Rightarrow> r | d # r' \<Rightarrow> if d = CHR ''.'' then dropWhile is_digit r' else r)
            in if ds = [] \<and> fs = [] then NaN
               else
                 (case lex_exponent r2 of
                    Some (ex, []) \<Rightarrow>
                      (case scaled_int neg (nat_of_digits (ds @ fs)) (ex - int (length fs)) of
                         Some i \<Rightarrow> Integer i
                       | None \<Rightarrow> NonInteger)
                  | _ \<Rightarrow> NaN)))"

text \<open>StringToNumber: blank text is 0; a radix prefix takes no sign.\<close>

definition string_to_number :: "string \<Rightarrow> jsnumber" where
  "string_to_number s =
     (let t = trim s in
      if t = [] then Integer 0
      else if take 2 t = ''0x'' \<or> take 2 t = ''0X'' then radix_number 16 (drop 2 t)
      else if take 2 t = ''0o'' \<or> take 2 t = ''0O'' then radix_number 8 (drop 2 t)
      else if take 2 t = ''0b'' \<or> take 2 t = ''0B'' then radix_number 2 (drop 2 t)
      else decimal_number t)"

text \<open>\<^verbatim>\<open>String(value)\<close>; inside an array, \<^verbatim>\<open>null\<close> joins as the empty text.\<close>

fun to_js_string :: "json \<Rightarrow> string" where
  "to_js_string JNull = ''null''"
| "to_js_string (JBool b) = (if b then ''true'' else ''false'')"
| "to_js_string (JNum i) = int_string i"
| "to_js_string (JReal s) = s"
| "to_js_string (JStr s) = s"
| "to_js_string (JArr xs) = join '','' (map (\<lambda>x. if x = JNull then [] else to_js_string x) xs)"
| "to_js_string (JObj ms) = ''[object Object]''"

fun to_number :: "json option \<Rightarrow> jsnumber" where
  "to_number None = NaN"
| "to_number (Some JNull) = Integer 0"
| "to_number (Some (JBool b)) = Integer (if b then 1 else 0)"
| "to_number (Some (JNum i)) = Integer i"
| "to_number (Some (JReal s)) = NonInteger"
| "to_number (Some (JStr s)) = string_to_number s"
| "to_number (Some (JArr xs)) = string_to_number (to_js_string (JArr xs))"
| "to_number (Some (JObj ms)) = NaN"

section \<open>The token codecs\<close>

text \<open>
  Every \<^verbatim>\<open>throw\<close> of the modelled functions is a value of \<open>error\<close>; the tool handler
  turns it into a result with \<^verbatim>\<open>isError: true\<close>.
\<close>

datatype error =
    InvalidAsyncRequestId
  | InvalidCursor
  | FetchFailed
  | InvalidJsonBody
  | FailedToGetMessages nat
  | UnexpectedMessageFormat
  | FailedToCreateSession nat
  | FailedToSendAsyncMessage nat

record AsyncRequestPayload =
  session_id :: string
  message_id :: string
  submitted_at_ms :: json

record CursorPayload =
  offset :: nat

text \<open>\<^verbatim>\<open>Buffer.from(JSON.stringify(payload)).toString("base64url")\<close>\<close>

definition encodeAsyncRequestId :: "AsyncRequestPayload \<Rightarrow> string" where
  "encodeAsyncRequestId payload =
     base64url_encode (stringify (JObj [
       (''session_id'', JStr (session_id payload)),
       (''message_id'', JStr (message_id payload)),
       (''submitted_at_ms'', submitted_at_ms payload)]))"

text \<open>\<^verbatim>\<open>typeof value === "string"\<close> and \<^verbatim>\<open>typeof value === "number"\<close> of a property.\<close>

fun string_of :: "json option \<Rightarrow> string option" where
  "string_of (Some (JStr s)) = Some s"
| "string_of _ = None"

fun number_of :: "json option \<Rightarrow> json option" where
  "number_of (Some (JNum i)) = Some (JNum i)"
| "number_of (Some (JReal s)) = Some (JReal s)"
| "number_of _ = None"

text \<open>
  Every failure inside the \<^verbatim>\<open>try\<close> (the syntax error of \<^verbatim>\<open>JSON.parse\<close>, the type
  error of a property read on \<^verbatim>\<open>null\<close>, the "missing fields" check) is caught and
  thrown again as the one invalid-token error.
\<close>

definition decodeAsyncRequestId :: "string \<Rightarrow> error + AsyncRequestPayload" where
  "decodeAsyncRequestId asyncRequestId =
     (case json_parse (base64url_decode asyncRequestId) of
        None \<Rightarrow> Inl InvalidAsyncRequestId
      | Some parsed \<Rightarrow>
          if parsed = JNull then Inl InvalidAsyncRequestId
          else
            (case (string_of (get_prop parsed ''session_id''),
                   string_of (get_prop parsed ''message_id''),
                   number_of (get_prop parsed ''submitted_at_ms'')) of
               (Some sid, Some mid, Some ts) \<Rightarrow>
                 Inr \<lparr>session_id = sid, message_id = mid, submitted_at_ms = ts\<rparr>
             | _ \<Rightarrow> Inl InvalidAsyncRequestId))"

definition encodeCursor :: "CursorPayload \<Rightarrow> string" where
  "encodeCursor payload =
     base64url_encode (stringify (JObj [(''offset'', JNum (int (offset payload)))]))"

text \<open>
  \<^verbatim>\<open>if (!cursor)\<close> holds for an absent and for an empty cursor. The offset is
  \<^verbatim>\<open>Number(parsed.offset)\<close>, kept when it is an integer that is not negative.
\<close>

definition decodeCursor :: "string option \<Rightarrow> error + CursorPayload" where
  "decodeCursor cursor =
     (case cursor of
        None \<Rightarrow> Inr \<lparr>offset = 0\<rparr>
      | Some c \<Rightarrow>
          if c = [] then Inr \<lparr>offset = 0\<rparr>
          else
            (case json_parse (base64url_decode c) of
               None \<Rightarrow> Inl InvalidCursor
             | Some parsed \<Rightarrow>
                 if parsed = JNull then Inl InvalidCursor
                 else
                   (case to_number (get_prop parsed ''offset'') of
                      Integer i \<Rightarrow> if i < 0 then Inl InvalidCursor else Inr \<lparr>offset = nat i\<rparr>
                    | _ \<Rightarrow> Inl InvalidCursor)))"

section \<open>The codecs are inverse to each other\<close>

subsection \<open>base64url\<close>

lemma b64_bytes_sextets: "\<forall>b\<in>set bs. b < 256 \<Longrightarrow> b64_bytes (b64_sextets bs) = bs"
  by (induction bs rule: b64_sextets.induct) auto

lemma b64_sextets_bound: "\<forall>b\<in>set bs. b < 256 \<Longrightarrow> \<forall>v\<in>set (b64_sextets bs). v < 64"
  by (induction bs rule: b64_sextets.induct) auto

lemma unbase64_char: "n < 64 \<Longrightarrow> unbase64 (b64url_char n) = Some n"
  by (auto simp: unbase64_def b64url_char_def Let_def)

lemma b64url_char_not_pad: "n < 64 \<Longrightarrow> b64url_char n \<noteq> CHR ''=''"
  by (auto simp: b64url_char_def char_of_eq_iff take_bit_eq_mod)

lemma b64_values_chars: "\<forall>v\<in>set vs. v < 64 \<Longrightarrow> b64_values (map b64url_char vs) = vs"
  by (induction vs) (simp_all add: unbase64_char b64url_char_not_pad)

lemma base64url_roundtrip: "base64url_decode (base64url_encode s) = s"
proof -
  have bytes: "\<forall>b\<in>set (map of_char s :: nat list). b < 256"
    by simp
  have "b64_values (base64url_encode s) = b64_sextets (map of_char s)"
    unfolding base64url_encode_def
    by (rule b64_values_chars) (rule b64_sextets_bound [OF bytes])
  then show ?thesis
    by (simp add: base64url_decode_def b64_bytes_sextets [OF bytes] comp_def)
qed

lemma base64url_encode_nonempty: "s \<noteq> [] \<Longrightarrow> base64url_encode s \<noteq> []"
  by (cases "map of_char s :: nat list" rule: b64_sextets.cases) (auto simp: base64url_encode_def)

subsection \<open>Numbers\<close>

lemma is_digit_digit_char: "d < 10 \<Longrightarrow> is_digit (digit_char d)"
  by (simp add: is_digit_def digit_char_def)

lemma digit_val_digit_char: "d < 10 \<Longrightarrow> digit_val (digit_char d) = d"
  by (simp add: digit_val_def digit_char_def)

lemma digits_of_nat_all: "\<forall>c\<in>set (digits_of_nat n). is_digit c"
proof (induction n rule: digits_of_nat.induct)
  case (1 n)
  then show ?case
    by (subst digits_of_nat.simps) (auto simp: is_digit_digit_char)
qed

lemma digits_of_nat_nonempty: "digits_of_nat n \<noteq> []"
  by (subst digits_of_nat.simps) simp

lemma nat_of_digits_snoc: "nat_of_digits (ds @ [c]) = nat_of_digits ds * 10 + digit_val c"
  by (simp add: nat_of_digits_def)

lemma nat_of_digits_of_nat: "nat_of_digits (digits_of_nat n) = n"
proof (induction n rule: digits_of_nat.induct)
  case (1 n)
  show ?case
  proof (cases "n < 10")
    case True
    then show ?thesis
      by (subst digits_of_nat.simps) (simp add: nat_of_digits_def digit_val_digit_char)
  next
    case False
    then have "nat_of_digits (digits_of_nat (n div 10)) = n div 10"
      using 1 by simp
    with False show ?thesis
      by (subst digits_of_nat.simps) (simp add: nat_of_digits_snoc digit_val_digit_char)
  qed
qed

lemma digits_of_nat_hd: "0 < n \<Longrightarrow> hd (digits_of_nat n) \<noteq> CHR ''0''"
proof (induction n rule: digits_of_nat.induct)
  case (1 n)
  show ?case
  proof (cases "n < 10")
    case True
    with 1(2) show ?thesis
      by (subst digits_of_nat.simps)
        (auto simp: digit_char_def char_of_eq_iff take_bit_eq_mod)
  next
    case False
    then have "hd (digits_of_nat (n div 10)) \<noteq> CHR ''0''"
      using 1 by simp
    with False show ?thesis
      by (subst digits_of_nat.simps) (simp add: digits_of_nat_nonempty)
  qed
qed

lemma digits_of_nat_single: "n < 10 \<Longrightarrow> length (digits_of_nat n) = 1"
  by (subst digits_of_nat.simps) simp

lemma digits_of_nat_no_leading_zero:
  "\<not> (1 < length (digits_of_nat n) \<and> hd (digits_of_nat n) = CHR ''0'')"
proof (cases "n < 10")
  case True
  then show ?thesis by (simp add: digits_of_nat_single)
next
  case False
  then show ?thesis using digits_of_nat_hd [of n] by simp
qed

text \<open>What may follow a number in the output of stringify: a comma or a closing bracket.\<close>

definition num_end :: "string \<Rightarrow> bool" where
  "num_end r = (case r of [] \<Rightarrow> True | c # _ \<Rightarrow> c = CHR ''}'' \<or> c = CHR '','' \<or> c = CHR '']'')"

lemma takeWhile_digits: "num_end r \<Longrightarrow> takeWhile is_digit (digits_of_nat n @ r) = digits_of_nat n"
  using digits_of_nat_all [of n]
  by (cases r) (auto simp: takeWhile_append2 num_end_def is_digit_def)

lemma dropWhile_digits: "num_end r \<Longrightarrow> dropWhile is_digit (digits_of_nat n @ r) = r"
  using digits_of_nat_all [of n]
  by (cases r) (auto simp: dropWhile_append2 num_end_def is_digit_def)

lemma lex_fraction_end: "num_end r \<Longrightarrow> lex_fraction r = Some ([], r)"
  by (auto simp: lex_fraction_def num_end_def split: list.splits)

lemma lex_exponent_end: "num_end r \<Longrightarrow> lex_exponent r = Some (0, r)"
  by (auto simp: lex_exponent_def num_end_def split: list.splits)

lemma digits_of_nat_not_minus: "hd (digits_of_nat n) \<noteq> CHR ''-''"
  using digits_of_nat_all [of n] digits_of_nat_nonempty [of n]
  by (cases "digits_of_nat n") (auto simp: is_digit_def)

lemma lex_number_nat:
  assumes "num_end r"
  shows "lex_number (digits_of_nat n @ r) = Some (JNum (int n), r)"
proof -
  obtain c cs where cs: "digits_of_nat n = c # cs"
    using digits_of_nat_nonempty [of n] by (cases "digits_of_nat n") auto
  have c: "c \<noteq> CHR ''-''"
    using digits_of_nat_not_minus [of n] cs by simp
  have tw: "takeWhile is_digit (c # cs @ r) = c # cs" and dw: "dropWhile is_digit (c # cs @ r) = r"
    using takeWhile_digits [OF assms, of n] dropWhile_digits [OF assms, of n] cs by simp_all
  have nz: "\<not> (1 < length (c # cs) \<and> hd (c # cs) = CHR ''0'')"
    using digits_of_nat_no_leading_zero [of n] cs by simp
  have val: "nat_of_digits (c # cs) = n"
    using nat_of_digits_of_nat [of n] cs by simp
  show ?thesis
    unfolding cs lex_number_def Let_def
    using c nz
    by (simp add: tw dw lex_fraction_end [OF assms] lex_exponent_end [OF assms] val scaled_int_def
        del: takeWhile.simps dropWhile.simps)
qed

lemma lex_number_int:
  assumes "num_end r"
  shows "lex_number (int_string i @ r) = Some (JNum i, r)"
proof (cases "i < 0")
  case False
  then show ?thesis
    using lex_number_nat [OF assms, of "nat i"] by (simp add: int_string_def)
next
  case True
  obtain c cs where cs: "digits_of_nat (nat (- i)) = c # cs"
    using digits_of_nat_nonempty [of "nat (- i)"] by (cases "digits_of_nat (nat (- i))") auto
  have tw: "takeWhile is_digit (c # cs @ r) = c # cs" and dw: "dropWhile is_digit (c # cs @ r) = r"
    using takeWhile_digits [OF assms, of "nat (- i)"] dropWhile_digits [OF assms, of "nat (- i)"] cs
    by simp_all
  have nz: "\<not> (1 < length (c # cs) \<and> hd (c # cs) = CHR ''0'')"
    using digits_of_nat_no_leading_zero [of "nat (- i)"] cs by simp
  have val: "nat_of_digits (c # cs) = nat (- i)"
    using nat_of_digits_of_nat [of "nat (- i)"] cs by simp
  show ?thesis
    unfolding int_string_def cs lex_number_def Let_def
    using True nz
    by (simp add: tw dw lex_fraction_end [OF assms] lex_exponent_end [OF assms] val scaled_int_def
        del: takeWhile.simps dropWhile.simps)
qed

subsection \<open>Strings\<close>

lemma hex_val_hex_char: "d < 16 \<Longrightarrow> hex_val (hex_char d) = Some d"
  by (auto simp: hex_val_def hex_char_def Let_def)

lemma hex4_escape:
  "hex4 (CHR ''0'') (CHR ''0'') (hex_char (of_char c div 16)) (hex_char (of_char c mod 16))
     = Some (of_char c)" if "(of_char c :: nat) < 32"
proof -
  have "hex_val (hex_char (of_char c div 16)) = Some (of_char c div 16)"
    using that by (intro hex_val_hex_char) simp
  moreover have "hex_val (hex_char (of_char c mod 16)) = Some (of_char c mod 16)"
    by (intro hex_val_hex_char) simp
  moreover have "hex_val (CHR ''0'') = Some 0"
    by (simp add: hex_val_def)
  ultimately show ?thesis
    by (simp add: hex4_def)
qed

lemma lex_string_escape_char:
  "lex_string (escape_char c @ cs) = map_option (\<lambda>(s, r). (c # s, r)) (lex_string cs)"
proof -
  consider "c = CHR 0x22" | "c = CHR 0x5C" | "c = CHR 0x08" | "c = CHR 0x0C" | "c = CHR 0x0A"
    | "c = CHR 0x0D" | "c = CHR 0x09"
    | "c \<notin> {CHR 0x22, CHR 0x5C, CHR 0x08, CHR 0x0C, CHR 0x0A, CHR 0x0D, CHR 0x09}" "(of_char c :: nat) < 32"
    | "c \<noteq> CHR 0x22" "c \<noteq> CHR 0x5C" "\<not> (of_char c :: nat) < 32"
    by auto
  then show ?thesis
  proof cases
    case 8
    then show ?thesis
      using hex4_escape [of c]
      by (simp add: escape_char_def)
  next
    case 9
    then show ?thesis
      by (auto simp: escape_char_def)
  qed (simp_all add: escape_char_def unescape_def)
qed

lemma lex_string_escaped:
  "lex_string (concat (map escape_char s) @ CHR 0x22 # r) = Some (s, r)"
  by (induction s) (simp_all add: lex_string_escape_char del: lex_string.simps, simp)

lemma lex_string_quote: "lex_string (tl (quote s) @ r) = Some (s, r)"
  using lex_string_escaped [of s r] by (simp add: quote_def)

subsection \<open>Tokens and whole documents\<close>

lemma lex_punct:
  "tokenize (CHR ''{'' # cs) = map_option ((#) TLBrace) (tokenize cs)"
  "tokenize (CHR ''}'' # cs) = map_option ((#) TRBrace) (tokenize cs)"
  "tokenize (CHR '':'' # cs) = map_option ((#) TColon) (tokenize cs)"
  "tokenize (CHR '','' # cs) = map_option ((#) TComma) (tokenize cs)"
  by (subst tokenize.simps, simp add: is_ws_def)+

lemma lex_quote_app: "tokenize (quote s @ r) = map_option ((#) (TStr s)) (tokenize r)"
proof -
  have "tokenize (CHR 0x22 # tl (quote s) @ r) = map_option ((#) (TStr s)) (tokenize r)"
    by (subst tokenize.simps) (simp add: is_ws_def lex_string_quote del: lex_string.simps)
  then show ?thesis
    by (simp add: quote_def)
qed

lemma lex_number_start:
  assumes "is_digit c \<or> c = CHR ''-''"
  shows "tokenize (c # cs) =
    (case lex_number (c # cs) of None \<Rightarrow> None | Some (v, r) \<Rightarrow> map_option ((#) (TAtom v)) (tokenize r))"
proof -
  have n: "\<not> is_ws c" "c \<noteq> CHR ''{''" "c \<noteq> CHR ''}''" "c \<noteq> CHR ''[''" "c \<noteq> CHR '']''"
    "c \<noteq> CHR '':''" "c \<noteq> CHR '',''" "c \<noteq> CHR 0x22"
    using assms by (auto simp: is_ws_def is_digit_def)
  have d: "c = CHR ''-'' \<or> is_digit c"
    using assms by blast
  show ?thesis
    by (subst tokenize.simps) (simp only: n d if_True if_False)
qed

lemma lex_int_app:
  assumes "num_end r"
  shows "tokenize (int_string i @ r) = map_option ((#) (TAtom (JNum i))) (tokenize r)"
proof -
  obtain c cs where cs: "int_string i = c # cs" and c: "is_digit c \<or> c = CHR ''-''"
  proof (cases "i < 0")
    case True
    then show ?thesis using that by (simp add: int_string_def)
  next
    case False
    obtain d ds where "digits_of_nat (nat i) = d # ds"
      using digits_of_nat_nonempty [of "nat i"] by (cases "digits_of_nat (nat i)") auto
    moreover from this have "is_digit d"
      using digits_of_nat_all [of "nat i"] by simp
    ultimately show ?thesis using that False by (simp add: int_string_def)
  qed
  have "tokenize (int_string i @ r) = tokenize (c # cs @ r)"
    by (simp add: cs)
  also have "\<dots> = (case lex_number (c # cs @ r) of None \<Rightarrow> None
      | Some (v, r') \<Rightarrow> map_option ((#) (TAtom v)) (tokenize r'))"
    by (rule lex_number_start [OF c])
  also have "lex_number (c # cs @ r) = Some (JNum i, r)"
    using lex_number_int [OF assms, of i] by (simp add: cs)
  finally show ?thesis by simp
qed

lemma json_parse_cursor:
  "json_parse (stringify (JObj [(''offset'', JNum i)])) = Some (JObj [(''offset'', JNum i)])"
proof -
  have "tokenize (stringify (JObj [(''offset'', JNum i)]))
      = Some [TLBrace, TStr ''offset'', TColon, TAtom (JNum i), TRBrace]"
    by (simp add: lex_punct lex_quote_app lex_int_app num_end_def tokenize.simps(1))
  then show ?thesis
    by (simp add: json_parse_def eval_nat_numeral)
qed

lemma json_parse_handle:
  "json_parse (stringify (JObj [(''session_id'', JStr s), (''message_id'', JStr m),
       (''submitted_at_ms'', JNum i)]))
   = Some (JObj [(''session_id'', JStr s), (''message_id'', JStr m), (''submitted_at_ms'', JNum i)])"
proof -
  have "tokenize (stringify (JObj [(''session_id'', JStr s), (''message_id'', JStr m),
       (''submitted_at_ms'', JNum i)]))
      = Some [TLBrace, TStr ''session_id'', TColon, TStr s, TComma,
              TStr ''message_id'', TColon, TStr m, TComma,
              TStr ''submitted_at_ms'', TColon, TAtom (JNum i), TRBrace]"
    by (simp add: lex_punct lex_quote_app lex_int_app num_end_def tokenize.simps(1))
  then show ?thesis
    by (simp add: json_parse_def eval_nat_numeral)
qed

subsection \<open>Cursor and handle\<close>

lemma stringify_object_nonempty: "stringify (JObj ms) \<noteq> []"
  by simp

lemma decodeCursor_encodeCursor: "decodeCursor (Some (encodeCursor \<lparr>offset = n\<rparr>)) = Inr \<lparr>offset = n\<rparr>"
  using base64url_encode_nonempty [OF stringify_object_nonempty, of "[(''offset'', JNum (int n))]"]
  by (simp add: decodeCursor_def encodeCursor_def base64url_roundtrip json_parse_cursor
      del: stringify.simps)

lemma decodeAsyncRequestId_encode:
  "decodeAsyncRequestId (encodeAsyncRequestId
      \<lparr>session_id = s, message_id = m, submitted_at_ms = JNum i\<rparr>)
    = Inr \<lparr>session_id = s, message_id = m, submitted_at_ms = JNum i\<rparr>"
  by (simp add: decodeAsyncRequestId_def encodeAsyncRequestId_def base64url_roundtrip
      json_parse_handle del: stringify.simps)

section \<open>Claims about the codecs\<close>

text \<open>
  C7 (codec round trip). Decoding an encoded handle gives back the session id, the
  message id and the submission time; decoding an encoded cursor gives back its offset;
  an absent cursor decodes to offset 0. The statement holds for every text and every
  integer of the model, so also for non-empty ids, times from 0 on and offsets up to
  \<open>2^31\<close> and beyond.
\<close>

theorem codec_round_trip:
  "decodeAsyncRequestId (encodeAsyncRequestId
      \<lparr>session_id = s, message_id = m, submitted_at_ms = JNum t\<rparr>)
     = Inr \<lparr>session_id = s, message_id = m, submitted_at_ms = JNum t\<rparr>
   \<and> decodeCursor (Some (encodeCursor \<lparr>offset = n\<rparr>)) = Inr \<lparr>offset = n\<rparr>
   \<and> decodeCursor None = Inr \<lparr>offset = 0\<rparr>"
  by (simp add: decodeAsyncRequestId_encode decodeCursor_encodeCursor)
    (simp add: decodeCursor_def)

theorem codec_round_trip_witness:
  "decodeAsyncRequestId (encodeAsyncRequestId
      \<lparr>session_id = ''ses_1'', message_id = ''msg_async_1000_abc'', submitted_at_ms = JNum 1000\<rparr>)
     = Inr \<lparr>session_id = ''ses_1'', message_id = ''msg_async_1000_abc'', submitted_at_ms = JNum 1000\<rparr>
   \<and> decodeCursor (Some (encodeCursor \<lparr>offset = 2147483648\<rparr>)) = Inr \<lparr>offset = 2147483648\<rparr>
   \<and> decodeCursor None = Inr \<lparr>offset = 0\<rparr>"
  by (rule codec_round_trip)

section \<open>Pagination and projection: \<^verbatim>\<open>opencode_get_messages\<close>\<close>

definition DEFAULT_MESSAGE_LIMIT :: int where "DEFAULT_MESSAGE_LIMIT = 50"
definition MAX_MESSAGE_LIMIT :: int where "MAX_MESSAGE_LIMIT = 200"
definition DEFAULT_MAX_OUTPUT_TOKENS :: int where "DEFAULT_MAX_OUTPUT_TOKENS = 5000"
definition MAX_OUTPUT_TOKENS :: int where "MAX_OUTPUT_TOKENS = 20000"

definition DEFAULT_MESSAGE_FIELDS :: "string list" where
  "DEFAULT_MESSAGE_FIELDS = [''info.id'', ''info.role'', ''info.time'', ''parts.type'', ''parts.text'']"

text \<open>\<^verbatim>\<open>Math.ceil(value.length / 4)\<close>\<close>

definition estimateTokensFromString :: "string \<Rightarrow> nat" where
  "estimateTokensFromString v = (length v + 3) div 4"

definition estimateTokensFromObject :: "json \<Rightarrow> nat" where
  "estimateTokensFromObject v = estimateTokensFromString (stringify v)"

subsection \<open>Requested fields\<close>

text \<open>\<^verbatim>\<open>text.split(sep)\<close> for a separator of one character.\<close>

fun split_on :: "char \<Rightarrow> string \<Rightarrow> string list" where
  "split_on sep [] = [[]]"
| "split_on sep (c # cs) =
     (if c = sep then [] # split_on sep cs
      else (case split_on sep cs of [] \<Rightarrow> [[c]] | w # ws \<Rightarrow> (c # w) # ws))"

text \<open>\<^verbatim>\<open>Array.from(new Set(values))\<close>: the first occurrence of each value, in order.\<close>

definition dedupe :: "'a list \<Rightarrow> 'a list" where
  "dedupe xs = rev (remdups (rev xs))"

definition parseRequestedFields :: "json option \<Rightarrow> string list" where
  "parseRequestedFields requested =
     (case requested of
        None \<Rightarrow> DEFAULT_MESSAGE_FIELDS
      | Some JNull \<Rightarrow> DEFAULT_MESSAGE_FIELDS
      | Some f \<Rightarrow>
          (let values = (case f of
                           JArr xs \<Rightarrow> map to_js_string xs
                         | _ \<Rightarrow> filter (\<lambda>item. item \<noteq> [])
                                  (map trim (split_on (CHR '','') (to_js_string f))));
               normalized = filter (\<lambda>item. item \<noteq> []) (map trim values)
           in if normalized = [] then DEFAULT_MESSAGE_FIELDS
              else if ''*'' \<in> set normalized then [''*'']
              else dedupe normalized))"

text \<open>\<^verbatim>\<open>field.split(".").filter(Boolean)\<close>\<close>

definition field_path :: "string \<Rightarrow> string list" where
  "field_path field = filter (\<lambda>seg. seg \<noteq> []) (split_on (CHR ''.'') field)"

subsection \<open>Projection\<close>

lemma size_member: "(k, v) \<in> set ms \<Longrightarrow> size v < size (JObj ms)"
  by (induction ms) auto

lemma size_get_prop: "get_prop (JObj ms) k = Some v \<Longrightarrow> size v < size (JObj ms)"
proof -
  assume "get_prop (JObj ms) k = Some v"
  then have "(k, v) \<in> set (rev ms)"
    by (auto dest: map_of_SomeD)
  then show ?thesis
    using size_member [of k v ms] by simp
qed

lemma size_element: "x \<in> set xs \<Longrightarrow> size x < Suc (size_list size xs)"
  by (induction xs) auto

function pathExists :: "json \<Rightarrow> string list \<Rightarrow> bool" where
  "pathExists v [] = True"
| "pathExists (JArr xs) (h # t) = list_ex (\<lambda>entry. pathExists entry (h # t)) xs"
| "pathExists (JObj ms) (h # t) =
     (case get_prop (JObj ms) h of None \<Rightarrow> False | Some v \<Rightarrow> pathExists v t)"
| "pathExists JNull (h # t) = False"
| "pathExists (JBool b) (h # t) = False"
| "pathExists (JNum i) (h # t) = False"
| "pathExists (JReal s) (h # t) = False"
| "pathExists (JStr s) (h # t) = False"
  by pat_completeness auto
termination
  by (relation "measure (\<lambda>(v, p). size v)") (auto simp: size_element dest: size_get_prop simp del: get_prop.simps)

text \<open>
  The \<^verbatim>\<open>buckets\<close> map of \<^verbatim>\<open>projectValue\<close>: the paths grouped by their first segment, the
  groups in the order in which their segment is first met.
\<close>

fun bucket_add :: "(string \<times> string list list) list \<Rightarrow> string \<Rightarrow> string list
    \<Rightarrow> (string \<times> string list list) list" where
  "bucket_add [] h rest = [(h, [rest])]"
| "bucket_add ((k, current) # bs) h rest =
     (if k = h then (k, current @ [rest]) # bs else (k, current) # bucket_add bs h rest)"

fun buckets_of :: "(string \<times> string list list) list \<Rightarrow> string list list
    \<Rightarrow> (string \<times> string list list) list" where
  "buckets_of bs [] = bs"
| "buckets_of bs ([] # paths) = buckets_of bs paths"
| "buckets_of bs ((h # rest) # paths) = buckets_of (bucket_add bs h rest) paths"

function projectValue :: "json \<Rightarrow> string list list \<Rightarrow> json option" where
  "projectValue v pathGroups =
     (if list_ex (\<lambda>path. path = []) pathGroups then Some v
      else
        (case v of
           JArr xs \<Rightarrow>
             Some (JArr (concat (map (\<lambda>entry.
                 case projectValue entry pathGroups of None \<Rightarrow> [] | Some p \<Rightarrow> [p]) xs)))
         | JObj ms \<Rightarrow>
             (let output = concat (map (\<lambda>(key, nestedPaths).
                    case get_prop (JObj ms) key of
                      None \<Rightarrow> []
                    | Some member \<Rightarrow>
                        (case projectValue member nestedPaths of
                           None \<Rightarrow> []
                         | Some projected \<Rightarrow> [(key, projected)]))
                  (buckets_of [] pathGroups))
              in if output = [] then None else Some (JObj output))
         | _ \<Rightarrow> None))"
  by pat_completeness auto
termination
  by (relation "measure (\<lambda>(v, p). size v)") (auto simp: size_element dest: size_get_prop simp del: get_prop.simps)

declare projectValue.simps [simp del]

definition projectMessage :: "json \<Rightarrow> string list \<Rightarrow> json \<times> string list" where
  "projectMessage message requestedFields =
     (if ''*'' \<in> set requestedFields then (message, [])
      else
        (let paths = map field_path requestedFields;
             missingFields =
               filter (\<lambda>field. \<not> pathExists message (field_path field)) requestedFields;
             projected = (case projectValue message paths of None \<Rightarrow> JObj [] | Some p \<Rightarrow> p)
         in (projected, missingFields)))"


section \<open>The remote service\<close>

text \<open>
  Everything the server learns from outside comes from an HTTP request to the remote
  agent, from the clock or from the random number generator. The \<open>world\<close> holds what
  each of them answers after a given history of the call, so that later requests may be
  answered differently from earlier ones. A handler takes the history so far and returns
  the history it leaves.
\<close>

datatype request =
    CreateSession "string option"
  | PromptAsync string string string "string option"
  | ListMessages string nat
  | GetSessionStatus
  | ListQuestions
  | ListPermissions

text \<open>
  \<open>NoResponse\<close>: \<^verbatim>\<open>fetch\<close> rejects. Otherwise the status code and the body as
  \<^verbatim>\<open>response.json()\<close> reads it, \<open>None\<close> when the body is not JSON.
\<close>

datatype response = NoResponse | Response nat "json option"

datatype event = Sent request | ReadClock | Slept nat | DrewRandom

type_synonym trace = "event list"

record world =
  respond :: "trace \<Rightarrow> request \<Rightarrow> response"
  clock :: "trace \<Rightarrow> int"
  random_suffix :: "trace \<Rightarrow> string"

definition fetch :: "world \<Rightarrow> request \<Rightarrow> trace \<Rightarrow> response \<times> trace" where
  "fetch w req tr = (respond w tr req, tr @ [Sent req])"

definition date_now :: "world \<Rightarrow> trace \<Rightarrow> int \<times> trace" where
  "date_now w tr = (clock w tr, tr @ [ReadClock])"

definition sleep :: "nat \<Rightarrow> trace \<Rightarrow> trace" where
  "sleep ms tr = tr @ [Slept ms]"

text \<open>\<^verbatim>\<open>response.ok\<close>\<close>

definition response_ok :: "nat \<Rightarrow> bool" where
  "response_ok status = (200 \<le> status \<and> status \<le> 299)"

definition fetchSessionMessages ::
    "world \<Rightarrow> string \<Rightarrow> nat \<Rightarrow> trace \<Rightarrow> (error + json list) \<times> trace" where
  "fetchSessionMessages w sessionId limit tr =
     (case fetch w (ListMessages sessionId limit) tr of
        (NoResponse, tr') \<Rightarrow> (Inl FetchFailed, tr')
      | (Response status body, tr') \<Rightarrow>
          if \<not> response_ok status then (Inl (FailedToGetMessages status), tr')
          else
            (case body of
               None \<Rightarrow> (Inl InvalidJsonBody, tr')
             | Some (JArr messages) \<Rightarrow> (Inr messages, tr')
             | Some _ \<Rightarrow> (Inl UnexpectedMessageFormat, tr')))"

text \<open>\<^verbatim>\<open>null\<close> for a request that fails, for a status that is not 2xx and for a body that is not JSON.\<close>

definition fetchOptionalJson :: "world \<Rightarrow> request \<Rightarrow> trace \<Rightarrow> json \<times> trace" where
  "fetchOptionalJson w req tr =
     (case fetch w req tr of
        (NoResponse, tr') \<Rightarrow> (JNull, tr')
      | (Response status body, tr') \<Rightarrow>
          if \<not> response_ok status then (JNull, tr')
          else (case body of None \<Rightarrow> (JNull, tr') | Some v \<Rightarrow> (v, tr')))"

section \<open>The tool \<^verbatim>\<open>opencode_get_messages\<close>\<close>

record get_messages_args =
  gm_session_id :: string
  gm_limit :: "rat option"
  gm_cursor :: "string option"
  gm_max_output_tokens :: "rat option"
  gm_fields :: "json option"

text \<open>The \<^verbatim>\<open>payload\<close> object of the handler, its nested objects flattened.\<close>

record message_page =
  page_session_id :: string
  items :: "json list"
  page_limit :: nat
  page_cursor :: "string option"
  next_cursor :: "string option"
  has_more :: bool
  page_offset :: nat
  returned :: nat
  max_output_tokens :: nat
  estimated_output_tokens :: nat
  truncated :: bool
  finish_reason :: string
  requested_fields :: "string list"
  missing_fields :: "string list"
  notice :: "string option"

definition json_of_option :: "string option \<Rightarrow> json" where
  "json_of_option s = (case s of None \<Rightarrow> JNull | Some t \<Rightarrow> JStr t)"

text \<open>The payload as \<^verbatim>\<open>JSON.stringify\<close> sees it, the keys in the order of the source.\<close>

definition payload_json :: "message_page \<Rightarrow> json" where
  "payload_json p =
     JObj ([(''session_id'', JStr (page_session_id p)),
            (''items'', JArr (items p)),
            (''page'', JObj [
               (''limit'', JNum (int (page_limit p))),
               (''cursor'', json_of_option (page_cursor p)),
               (''next_cursor'', json_of_option (next_cursor p)),
               (''has_more'', JBool (has_more p)),
               (''offset'', JNum (int (page_offset p))),
               (''returned'', JNum (int (returned p)))]),
            (''budget'', JObj [
               (''max_output_tokens'', JNum (int (max_output_tokens p))),
               (''estimated_output_tokens'', JNum (int (estimated_output_tokens p))),
               (''truncated'', JBool (truncated p)),
               (''finish_reason'', JStr (finish_reason p))]),
            (''projection'', JObj [
               (''requested_fields'', JArr (map JStr (requested_fields p))),
               (''missing_fields'', JArr (map JStr (missing_fields p)))])]
           @ (case notice p of None \<Rightarrow> [] | Some n \<Rightarrow> [(''notice'', JStr n)]))"

text \<open>
  \<^verbatim>\<open>Math.min(Math.max(Math.floor(value ?? fallback), lo), hi)\<close>
\<close>

definition clamp_floor :: "rat option \<Rightarrow> int \<Rightarrow> int \<Rightarrow> int \<Rightarrow> nat" where
  "clamp_floor a fallback lo hi =
     nat (min (max \<lfloor>case a of None \<Rightarrow> of_int fallback | Some x \<Rightarrow> x\<rfloor> lo) hi)"

text \<open>
  The budget loop (lines 1680-1695): the items are appended one by one while the estimate
  of the list fits; the first item is appended whatever it costs. The result is
  \<^verbatim>\<open>responseItems\<close> and \<^verbatim>\<open>truncatedByBudget\<close>.
\<close>

fun budget_loop :: "nat \<Rightarrow> json list \<Rightarrow> json list \<Rightarrow> json list \<times> bool" where
  "budget_loop maxOutputTokens responseItems [] = (responseItems, False)"
| "budget_loop maxOutputTokens responseItems (item # rest) =
     (let candidate = responseItems @ [item];
          estimatedTokens = estimateTokensFromString (stringify (JArr candidate))
      in if estimatedTokens \<le> maxOutputTokens \<or> responseItems = []
         then budget_loop maxOutputTokens candidate rest
         else (responseItems, True))"

text \<open>The body of the safety loop (lines 1729-1739).\<close>

definition drop_last_item :: "nat \<Rightarrow> message_page \<Rightarrow> message_page" where
  "drop_last_item cursorOffset payload =
     (let remaining = butlast (items payload) in
      payload\<lparr>items := remaining,
              returned := length remaining,
              next_cursor := Some (encodeCursor \<lparr>offset = cursorOffset + length remaining\<rparr>),
              has_more := True,
              truncated := True,
              finish_reason := ''length'',
              estimated_output_tokens := estimateTokensFromObject (JArr remaining)\<rparr>)"

function shrink_to_budget :: "nat \<Rightarrow> nat \<Rightarrow> message_page \<Rightarrow> message_page" where
  "shrink_to_budget maxOutputTokens cursorOffset payload =
     (if estimateTokensFromObject (payload_json payload) > maxOutputTokens \<and> items payload \<noteq> []
      then shrink_to_budget maxOutputTokens cursorOffset (drop_last_item cursorOffset payload)
      else payload)"
  by pat_completeness auto
termination
  by (relation "measure (\<lambda>(m, c, p). length (items p))") (auto simp: drop_last_item_def Let_def)

declare shrink_to_budget.simps [simp del]

definition budget_notice :: string where
  "budget_notice = ''Payload still exceeds token budget with current field projection. Reduce fields or increase max_output_tokens.''"

text \<open>The last check (lines 1742-1756).\<close>

definition give_up_if_over :: "nat \<Rightarrow> nat \<Rightarrow> message_page \<Rightarrow> message_page" where
  "give_up_if_over maxOutputTokens cursorOffset payload =
     (if estimateTokensFromObject (payload_json payload) > maxOutputTokens
      then payload\<lparr>items := [],
                   returned := 0,
                   has_more := True,
                   next_cursor := Some (encodeCursor \<lparr>offset = cursorOffset\<rparr>),
                   truncated := True,
                   finish_reason := ''length'',
                   estimated_output_tokens := estimateTokensFromObject (JArr []),
                   notice := Some budget_notice\<rparr>
      else payload)"

text \<open>The payload as first assembled (lines 1661-1723), from the messages fetched.\<close>

definition assemble_page ::
    "string \<Rightarrow> nat \<Rightarrow> string option \<Rightarrow> nat \<Rightarrow> nat \<Rightarrow> string list \<Rightarrow> json list \<Rightarrow> message_page" where
  "assemble_page sessionId pageSize cursor cursorOffset maxOutputTokens requestedFields messages =
     (let rawPage = take pageSize (drop cursorOffset messages);
          hasMoreFromSource = (length messages > cursorOffset + length rawPage);
          results = map (\<lambda>message. projectMessage message requestedFields) rawPage;
          missingFields = dedupe (concat (map snd results));
          projectedPage = map fst results;
          (responseItems, truncatedByBudget) = budget_loop maxOutputTokens [] projectedPage;
          nextOffset = cursorOffset + length responseItems;
          hasMore = (nextOffset < cursorOffset + length projectedPage \<or> hasMoreFromSource)
      in \<lparr>page_session_id = sessionId,
          items = responseItems,
          page_limit = pageSize,
          page_cursor = cursor,
          next_cursor = (if hasMore then Some (encodeCursor \<lparr>offset = nextOffset\<rparr>) else None),
          has_more = hasMore,
          page_offset = cursorOffset,
          returned = length responseItems,
          max_output_tokens = maxOutputTokens,
          estimated_output_tokens = estimateTokensFromString (stringify (JArr responseItems)),
          truncated = truncatedByBudget,
          finish_reason = (if truncatedByBudget then ''length'' else ''stop''),
          requested_fields = requestedFields,
          missing_fields = missingFields,
          notice = None\<rparr>)"

definition build_page ::
    "string \<Rightarrow> nat \<Rightarrow> string option \<Rightarrow> nat \<Rightarrow> nat \<Rightarrow> string list \<Rightarrow> json list \<Rightarrow> message_page" where
  "build_page sessionId pageSize cursor cursorOffset maxOutputTokens requestedFields messages =
     give_up_if_over maxOutputTokens cursorOffset
       (shrink_to_budget maxOutputTokens cursorOffset
          (assemble_page sessionId pageSize cursor cursorOffset maxOutputTokens
             requestedFields messages))"

definition opencode_get_messages ::
    "world \<Rightarrow> get_messages_args \<Rightarrow> trace \<Rightarrow> (error + message_page) \<times> trace" where
  "opencode_get_messages w args tr =
     (let pageSize = clamp_floor (gm_limit args) DEFAULT_MESSAGE_LIMIT 1 MAX_MESSAGE_LIMIT in
      case decodeCursor (gm_cursor args) of
        Inl e \<Rightarrow> (Inl e, tr)
      | Inr cursorData \<Rightarrow>
          (let requestedFields = parseRequestedFields (gm_fields args);
               maxOutputTokens =
                 clamp_floor (gm_max_output_tokens args) DEFAULT_MAX_OUTPUT_TOKENS 1 MAX_OUTPUT_TOKENS;
               fetchLimit = offset cursorData + pageSize + 1
           in case fetchSessionMessages w (gm_session_id args) fetchLimit tr of
                (Inl e, tr') \<Rightarrow> (Inl e, tr')
              | (Inr messages, tr') \<Rightarrow>
                  (Inr (build_page (gm_session_id args) pageSize (gm_cursor args)
                          (offset cursorData) maxOutputTokens requestedFields messages), tr')))"

section \<open>The budget loop and the safety loop\<close>

lemma budget_loop_prefix:
  "\<exists>k\<le>length xs. fst (budget_loop mx acc xs) = acc @ take k xs
      \<and> snd (budget_loop mx acc xs) = (k < length xs)"
proof (induction xs arbitrary: acc)
  case Nil
  then show ?case by simp
next
  case (Cons x xs)
  show ?case
  proof (cases "estimateTokensFromString (stringify (JArr (acc @ [x]))) \<le> mx \<or> acc = []")
    case True
    from Cons [of "acc @ [x]"] obtain k where
      k: "k \<le> length xs" "fst (budget_loop mx (acc @ [x]) xs) = (acc @ [x]) @ take k xs"
         "snd (budget_loop mx (acc @ [x]) xs) = (k < length xs)"
      by blast
    have "budget_loop mx acc (x # xs) = budget_loop mx (acc @ [x]) xs"
      using True by (simp add: Let_def)
    with k show ?thesis
      by (intro exI [of _ "Suc k"]) simp
  next
    case False
    then have "budget_loop mx acc (x # xs) = (acc, True)"
      by (simp add: Let_def)
    then show ?thesis
      by (intro exI [of _ 0]) simp
  qed
qed

lemma budget_loop_first: "xs \<noteq> [] \<Longrightarrow> fst (budget_loop mx [] xs) \<noteq> []"
proof (cases xs)
  case Nil
  then show "xs \<noteq> [] \<Longrightarrow> ?thesis" by simp
next
  case (Cons x xs')
  obtain k where "fst (budget_loop mx [x] xs') = [x] @ take k xs'"
    using budget_loop_prefix [of xs' mx "[x]"] by blast
  then show ?thesis
    using Cons by (simp add: Let_def)
qed

lemma budget_loop_truncated_nonempty:
  "snd (budget_loop mx [] xs) \<Longrightarrow> fst (budget_loop mx [] xs) \<noteq> []"
  using budget_loop_first [of xs mx] by (cases xs) simp_all

text \<open>What the safety loop never touches.\<close>

lemma drop_last_item_frame:
  "page_session_id (drop_last_item c p) = page_session_id p"
  "page_limit (drop_last_item c p) = page_limit p"
  "page_cursor (drop_last_item c p) = page_cursor p"
  "page_offset (drop_last_item c p) = page_offset p"
  "max_output_tokens (drop_last_item c p) = max_output_tokens p"
  "requested_fields (drop_last_item c p) = requested_fields p"
  "missing_fields (drop_last_item c p) = missing_fields p"
  "notice (drop_last_item c p) = notice p"
  "items (drop_last_item c p) = butlast (items p)"
  by (simp_all add: drop_last_item_def Let_def)

text \<open>
  The state of a page after at least one item was dropped: more is announced, the page is
  marked truncated, and the cursor points behind the items that are left.
\<close>

definition resumes_after_items :: "nat \<Rightarrow> message_page \<Rightarrow> bool" where
  "resumes_after_items c p =
     (has_more p \<and> truncated p \<and> returned p = length (items p)
      \<and> next_cursor p = Some (encodeCursor \<lparr>offset = c + length (items p)\<rparr>))"

lemma resumes_after_drop: "resumes_after_items c (drop_last_item c p)"
  by (simp add: resumes_after_items_def drop_last_item_def Let_def)

lemma shrink_stop:
  "\<not> (estimateTokensFromObject (payload_json p) > mx \<and> items p \<noteq> [])
   \<Longrightarrow> shrink_to_budget mx c p = p"
  by (subst shrink_to_budget.simps) auto

lemma shrink_step:
  "estimateTokensFromObject (payload_json p) > mx \<and> items p \<noteq> []
   \<Longrightarrow> shrink_to_budget mx c p = shrink_to_budget mx c (drop_last_item c p)"
  by (subst shrink_to_budget.simps) auto

lemma shrink_to_budget_cases:
  "shrink_to_budget mx c p = p
   \<or> (resumes_after_items c (shrink_to_budget mx c p)
      \<and> length (items (shrink_to_budget mx c p)) < length (items p))"
proof (induction mx c p rule: shrink_to_budget.induct)
  case (1 mx c p)
  show ?case
  proof (cases "estimateTokensFromObject (payload_json p) > mx \<and> items p \<noteq> []")
    case False
    then show ?thesis by (simp add: shrink_stop)
  next
    case True
    have eq: "shrink_to_budget mx c p = shrink_to_budget mx c (drop_last_item c p)"
      using True by (rule shrink_step)
    have shorter: "length (items (drop_last_item c p)) < length (items p)"
      using True by (simp add: drop_last_item_frame)
    from 1 [OF True] show ?thesis
    proof
      assume "shrink_to_budget mx c (drop_last_item c p) = drop_last_item c p"
      then show ?thesis
        using eq shorter resumes_after_drop [of c p] by simp
    next
      assume "resumes_after_items c (shrink_to_budget mx c (drop_last_item c p))
        \<and> length (items (shrink_to_budget mx c (drop_last_item c p)))
            < length (items (drop_last_item c p))"
      then show ?thesis
        using eq shorter by simp
    qed
  qed
qed

lemma shrink_to_budget_fits:
  "estimateTokensFromObject (payload_json (shrink_to_budget mx c p)) \<le> mx
   \<or> items (shrink_to_budget mx c p) = []"
proof (induction mx c p rule: shrink_to_budget.induct)
  case (1 mx c p)
  show ?case
  proof (cases "estimateTokensFromObject (payload_json p) > mx \<and> items p \<noteq> []")
    case False
    then show ?thesis by (auto simp: shrink_stop)
  next
    case True
    then show ?thesis
      using 1 [OF True] by (simp add: shrink_step)
  qed
qed

lemma shrink_to_budget_prefix:
  "\<exists>k\<le>length (items p). items (shrink_to_budget mx c p) = take k (items p)"
proof (induction mx c p rule: shrink_to_budget.induct)
  case (1 mx c p)
  show ?case
  proof (cases "estimateTokensFromObject (payload_json p) > mx \<and> items p \<noteq> []")
    case False
    then show ?thesis
      by (intro exI [of _ "length (items p)"]) (simp add: shrink_stop)
  next
    case True
    from 1 [OF True] obtain k where
      k: "k \<le> length (butlast (items p))"
         "items (shrink_to_budget mx c (drop_last_item c p)) = take k (butlast (items p))"
      by (auto simp: drop_last_item_frame)
    have "take k (butlast (items p)) = take k (items p)"
      using k(1) by (simp add: butlast_conv_take)
    with k show ?thesis
      by (intro exI [of _ k]) (simp add: shrink_step [OF True])
  qed
qed

lemma shrink_to_budget_frame:
  "page_session_id (shrink_to_budget mx c p) = page_session_id p
   \<and> page_limit (shrink_to_budget mx c p) = page_limit p
   \<and> page_cursor (shrink_to_budget mx c p) = page_cursor p
   \<and> page_offset (shrink_to_budget mx c p) = page_offset p
   \<and> max_output_tokens (shrink_to_budget mx c p) = max_output_tokens p
   \<and> requested_fields (shrink_to_budget mx c p) = requested_fields p
   \<and> missing_fields (shrink_to_budget mx c p) = missing_fields p
   \<and> notice (shrink_to_budget mx c p) = notice p"
proof (induction mx c p rule: shrink_to_budget.induct)
  case (1 mx c p)
  show ?case
  proof (cases "estimateTokensFromObject (payload_json p) > mx \<and> items p \<noteq> []")
    case False
    then show ?thesis by (simp add: shrink_stop)
  next
    case True
    have eq: "shrink_to_budget mx c p = shrink_to_budget mx c (drop_last_item c p)"
      using True by (rule shrink_step)
    show ?thesis
      unfolding eq using 1 [OF True] by (simp add: drop_last_item_frame)
  qed
qed


text \<open>
  The payload once the safety loop has cut it down to its first \<open>n\<close> items (the payload
  itself when it has no more than \<open>n\<close>).
\<close>

definition cut_page :: "nat \<Rightarrow> message_page \<Rightarrow> nat \<Rightarrow> message_page" where
  "cut_page c p n =
     (if length (items p) \<le> n then p
      else p\<lparr>items := take n (items p),
              returned := n,
              next_cursor := Some (encodeCursor \<lparr>offset = c + n\<rparr>),
              has_more := True,
              truncated := True,
              finish_reason := ''length'',
              estimated_output_tokens := estimateTokensFromObject (JArr (take n (items p)))\<rparr>)"

lemma cut_page_all: "cut_page c p (length (items p)) = p"
  by (simp add: cut_page_def)

lemma drop_last_cut_page:
  "n < length (items p) \<Longrightarrow> drop_last_item c (cut_page c p (Suc n)) = cut_page c p n"
proof (cases "length (items p) = Suc n")
  case True
  then show ?thesis
    by (simp add: cut_page_def drop_last_item_def Let_def butlast_conv_take)
next
  case False
  assume "n < length (items p)"
  with False have "Suc n < length (items p)" by simp
  then show ?thesis
    by (simp add: cut_page_def drop_last_item_def Let_def butlast_conv_take min_def)
qed

lemma items_cut_page: "items (cut_page c p n) = take n (items p)"
  by (simp add: cut_page_def)

lemma shrink_cut_page:
  assumes "n \<le> length (items p)"
  shows "\<exists>k\<le>n. shrink_to_budget mx c (cut_page c p n) = cut_page c p k
          \<and> (\<forall>j. k < j \<and> j \<le> n \<longrightarrow> mx < estimateTokensFromObject (payload_json (cut_page c p j)))
          \<and> (estimateTokensFromObject (payload_json (cut_page c p k)) \<le> mx \<or> k = 0)"
  using assms
proof (induction n)
  case 0
  have "items (cut_page c p 0) = []"
    by (simp add: items_cut_page)
  then have "shrink_to_budget mx c (cut_page c p 0) = cut_page c p 0"
    by (simp add: shrink_stop)
  then show ?case by simp
next
  case (Suc n)
  let ?q = "cut_page c p (Suc n)"
  show ?case
  proof (cases "mx < estimateTokensFromObject (payload_json ?q)")
    case False
    then have "shrink_to_budget mx c ?q = ?q"
      by (simp add: shrink_stop)
    with False show ?thesis
      by (intro exI [of _ "Suc n"]) simp
  next
    case True
    have "items ?q \<noteq> []"
      using Suc.prems by (auto simp: items_cut_page)
    with True have "shrink_to_budget mx c ?q = shrink_to_budget mx c (drop_last_item c ?q)"
      by (simp add: shrink_step)
    also have "drop_last_item c ?q = cut_page c p n"
      using Suc.prems by (simp add: drop_last_cut_page)
    finally have eq: "shrink_to_budget mx c ?q = shrink_to_budget mx c (cut_page c p n)" .
    from Suc.IH Suc.prems obtain k where k: "k \<le> n"
      "shrink_to_budget mx c (cut_page c p n) = cut_page c p k"
      "\<forall>j. k < j \<and> j \<le> n \<longrightarrow> mx < estimateTokensFromObject (payload_json (cut_page c p j))"
      "estimateTokensFromObject (payload_json (cut_page c p k)) \<le> mx \<or> k = 0"
      by auto
    have "\<forall>j. k < j \<and> j \<le> Suc n \<longrightarrow> mx < estimateTokensFromObject (payload_json (cut_page c p j))"
      using k(3) True by (auto simp: le_Suc_eq)
    with k eq show ?thesis
      by (intro exI [of _ k]) simp
  qed
qed

text \<open>
  The safety loop: it stops at the longest run of leading items whose envelope fits the
  budget, or with no item.
\<close>

lemma shrink_to_budget_spec:
  "\<exists>k\<le>length (items p). shrink_to_budget mx c p = cut_page c p k
     \<and> (\<forall>j. k < j \<and> j \<le> length (items p)
           \<longrightarrow> mx < estimateTokensFromObject (payload_json (cut_page c p j)))
     \<and> (estimateTokensFromObject (payload_json (cut_page c p k)) \<le> mx \<or> k = 0)"
  using shrink_cut_page [of "length (items p)" p mx c] by (simp add: cut_page_all)

subsection \<open>The assembled page\<close>

lemma assemble_page_fields:
  "page_session_id (assemble_page sid ps cur c mx rf msgs) = sid"
  "page_limit (assemble_page sid ps cur c mx rf msgs) = ps"
  "page_cursor (assemble_page sid ps cur c mx rf msgs) = cur"
  "page_offset (assemble_page sid ps cur c mx rf msgs) = c"
  "max_output_tokens (assemble_page sid ps cur c mx rf msgs) = mx"
  "requested_fields (assemble_page sid ps cur c mx rf msgs) = rf"
  "notice (assemble_page sid ps cur c mx rf msgs) = None"
  "returned (assemble_page sid ps cur c mx rf msgs)
     = length (items (assemble_page sid ps cur c mx rf msgs))"
  "next_cursor (assemble_page sid ps cur c mx rf msgs)
     = (if has_more (assemble_page sid ps cur c mx rf msgs)
        then Some (encodeCursor \<lparr>offset = c + length (items (assemble_page sid ps cur c mx rf msgs))\<rparr>)
        else None)"
  by (simp_all add: assemble_page_def Let_def split: prod.splits)

definition projected_page :: "nat \<Rightarrow> nat \<Rightarrow> string list \<Rightarrow> json list \<Rightarrow> json list" where
  "projected_page ps c rf msgs = map (\<lambda>m. fst (projectMessage m rf)) (take ps (drop c msgs))"

lemma assemble_page_items:
  "items (assemble_page sid ps cur c mx rf msgs) = fst (budget_loop mx [] (projected_page ps c rf msgs))"
  "truncated (assemble_page sid ps cur c mx rf msgs) = snd (budget_loop mx [] (projected_page ps c rf msgs))"
  "has_more (assemble_page sid ps cur c mx rf msgs)
     = (length (fst (budget_loop mx [] (projected_page ps c rf msgs))) < length (take ps (drop c msgs))
        \<or> c + length (take ps (drop c msgs)) < length msgs)"
  by (simp_all add: assemble_page_def projected_page_def Let_def comp_def split: prod.splits)

lemma assemble_page_truncated:
  assumes "truncated (assemble_page sid ps cur c mx rf msgs)"
  shows "items (assemble_page sid ps cur c mx rf msgs) \<noteq> []"
    and "resumes_after_items c (assemble_page sid ps cur c mx rf msgs)"
proof -
  let ?xs = "projected_page ps c rf msgs"
  from assms have tr: "snd (budget_loop mx [] ?xs)"
    by (simp add: assemble_page_items)
  then show "items (assemble_page sid ps cur c mx rf msgs) \<noteq> []"
    by (simp add: assemble_page_items budget_loop_truncated_nonempty)
  obtain k where k: "k \<le> length ?xs" "fst (budget_loop mx [] ?xs) = [] @ take k ?xs"
      "snd (budget_loop mx [] ?xs) = (k < length ?xs)"
    using budget_loop_prefix [of ?xs mx "[]"] by blast
  with tr have "length (fst (budget_loop mx [] ?xs)) < length (take ps (drop c msgs))"
    by (simp add: projected_page_def)
  then have "has_more (assemble_page sid ps cur c mx rf msgs)"
    by (simp add: assemble_page_items)
  with assms show "resumes_after_items c (assemble_page sid ps cur c mx rf msgs)"
    by (simp add: resumes_after_items_def assemble_page_fields)
qed

lemma give_up_resumes:
  "resumes_after_items c p \<Longrightarrow> resumes_after_items c (give_up_if_over mx c p)"
  by (simp add: resumes_after_items_def give_up_if_over_def)

lemma shrink_resumes:
  "resumes_after_items c p \<Longrightarrow> resumes_after_items c (shrink_to_budget mx c p)"
  using shrink_to_budget_cases [of mx c p] by auto

lemma build_page_alt:
  "build_page sid ps cur c mx rf msgs
     = give_up_if_over mx c (shrink_to_budget mx c (assemble_page sid ps cur c mx rf msgs))"
  by (simp add: build_page_def)

lemma decode_next_cursor:
  "resumes_after_items c p
   \<Longrightarrow> decodeCursor (next_cursor p) = Inr \<lparr>offset = c + length (items p)\<rparr>"
  by (simp add: resumes_after_items_def decodeCursor_encodeCursor)

lemma build_page_fits_unchanged:
  assumes "estimateTokensFromObject (payload_json (assemble_page sid ps cur c mx rf msgs)) \<le> mx"
  shows "build_page sid ps cur c mx rf msgs = assemble_page sid ps cur c mx rf msgs"
  using assms by (simp add: build_page_def shrink_stop give_up_if_over_def)

section \<open>Claims about the token budget\<close>

text \<open>An example history of six short messages, and a remote that serves it.\<close>

definition example_message :: "string \<Rightarrow> string \<Rightarrow> json" where
  "example_message i t =
     JObj [(''info'', JObj [(''id'', JStr i), (''role'', JStr ''user'')]),
           (''parts'', JArr [JObj [(''type'', JStr ''text''), (''text'', JStr t)]])]"

definition example_history :: "json list" where
  "example_history =
     [example_message ''m0'' ''zero'', example_message ''m1'' ''one'',
      example_message ''m2'' ''two'', example_message ''m3'' ''three'',
      example_message ''m4'' ''four'', example_message ''m5'' ''five'']"

definition serve_history :: "json list \<Rightarrow> world" where
  "serve_history history =
     \<lparr>respond = (\<lambda>tr req. case req of
                    ListMessages s l \<Rightarrow> Response 200 (Some (JArr (take l history)))
                  | _ \<Rightarrow> NoResponse),
      clock = (\<lambda>tr. int (length tr)),
      random_suffix = (\<lambda>tr. ''abc'')\<rparr>"

definition example_args :: "rat \<Rightarrow> rat \<Rightarrow> get_messages_args" where
  "example_args limit budget =
     \<lparr>gm_session_id = ''ses_1'', gm_limit = Some limit, gm_cursor = None,
      gm_max_output_tokens = Some budget, gm_fields = Some (JArr [JStr ''*''])\<rparr>"

lemma give_up_if_over_cases:
  "(estimateTokensFromObject (payload_json q) \<le> mx \<and> give_up_if_over mx c q = q)
   \<or> (mx < estimateTokensFromObject (payload_json q)
       \<and> items (give_up_if_over mx c q) = []
       \<and> notice (give_up_if_over mx c q) = Some budget_notice
       \<and> resumes_after_items c (give_up_if_over mx c q))"
  by (auto simp: give_up_if_over_def resumes_after_items_def)

lemma opencode_get_messages_page:
  assumes "opencode_get_messages w args tr = (Inr p, tr')"
  shows "\<exists>cursorData messages.
           decodeCursor (gm_cursor args) = Inr cursorData
         \<and> fetchSessionMessages w (gm_session_id args)
              (offset cursorData + clamp_floor (gm_limit args) DEFAULT_MESSAGE_LIMIT 1 MAX_MESSAGE_LIMIT + 1)
              tr = (Inr messages, tr')
         \<and> p = build_page (gm_session_id args)
                 (clamp_floor (gm_limit args) DEFAULT_MESSAGE_LIMIT 1 MAX_MESSAGE_LIMIT)
                 (gm_cursor args) (offset cursorData)
                 (clamp_floor (gm_max_output_tokens args) DEFAULT_MAX_OUTPUT_TOKENS 1 MAX_OUTPUT_TOKENS)
                 (parseRequestedFields (gm_fields args)) messages"
  using assms
  by (auto simp: opencode_get_messages_def Let_def split: sum.splits prod.splits)

lemma safety_net_cut:
  assumes "a = assemble_page sid ps cur c mx rf msgs"
    and "p = build_page sid ps cur c mx rf msgs"
  shows "\<exists>k\<le>length (items a).
           items p = take k (items a)
         \<and> (\<forall>j. k < j \<and> j \<le> length (items a)
               \<longrightarrow> mx < estimateTokensFromObject (payload_json (cut_page c a j)))
         \<and> (k = 0 \<or> estimateTokensFromObject (payload_json (cut_page c a k)) \<le> mx)
         \<and> (k < length (items a)
               \<longrightarrow> has_more p \<and> truncated p \<and> returned p = k
                 \<and> decodeCursor (next_cursor p) = Inr \<lparr>offset = c + k\<rparr>)
         \<and> ((notice p \<noteq> None)
               = (k = 0 \<and> mx < estimateTokensFromObject (payload_json (cut_page c a 0))))
         \<and> (notice p \<noteq> None
               \<longrightarrow> notice p = Some budget_notice \<and> has_more p \<and> truncated p
                 \<and> decodeCursor (next_cursor p) = Inr \<lparr>offset = c\<rparr>)
         \<and> (notice p = None \<longrightarrow> estimateTokensFromObject (payload_json p) \<le> mx)"
proof -
  obtain k where k: "k \<le> length (items a)"
    and q: "shrink_to_budget mx c a = cut_page c a k"
    and over: "\<forall>j. k < j \<and> j \<le> length (items a)
        \<longrightarrow> mx < estimateTokensFromObject (payload_json (cut_page c a j))"
    and fits: "estimateTokensFromObject (payload_json (cut_page c a k)) \<le> mx \<or> k = 0"
    using shrink_to_budget_spec [of a mx c] by blast
  let ?q = "cut_page c a k"
  have p: "p = give_up_if_over mx c ?q"
    using assms q by (simp add: build_page_def)
  have an: "notice a = None"
    using assms by (simp add: assemble_page_fields)
  have qn: "notice ?q = None"
    using an by (simp add: cut_page_def)
  have qi: "items ?q = take k (items a)"
    by (rule items_cut_page)
  have cut: "k < length (items a) \<Longrightarrow> resumes_after_items c ?q"
    by (simp add: cut_page_def resumes_after_items_def)
  consider (fit) "estimateTokensFromObject (payload_json ?q) \<le> mx" "p = ?q"
    | (over) "mx < estimateTokensFromObject (payload_json ?q)" "items p = []"
        "notice p = Some budget_notice" "resumes_after_items c p"
    using give_up_if_over_cases [of ?q mx c] p by auto
  then show ?thesis
  proof cases
    case fit
    have "k < length (items a) \<longrightarrow> has_more p \<and> truncated p \<and> returned p = k
        \<and> decodeCursor (next_cursor p) = Inr \<lparr>offset = c + k\<rparr>"
    proof
      assume lt: "k < length (items a)"
      then have r: "resumes_after_items c p"
        using cut fit by simp
      have "length (items p) = k"
        using fit qi k by simp
      with r decode_next_cursor [OF r] show "has_more p \<and> truncated p \<and> returned p = k
          \<and> decodeCursor (next_cursor p) = Inr \<lparr>offset = c + k\<rparr>"
        by (simp add: resumes_after_items_def)
    qed
    moreover have "notice p = None"
      using fit qn by simp
    moreover have "\<not> (k = 0 \<and> mx < estimateTokensFromObject (payload_json (cut_page c a 0)))"
      using fit by auto
    ultimately show ?thesis
      using k over fits fit qi by (intro exI [of _ k]) simp
  next
    case over
    then have k0: "k = 0"
      using fits by simp
    have dec: "decodeCursor (next_cursor p) = Inr \<lparr>offset = c\<rparr>"
      using decode_next_cursor [OF over(4)] over(2) by simp
    have "has_more p" "truncated p" "returned p = 0"
      using over(2,4) by (simp_all add: resumes_after_items_def)
    with dec k0 over k \<open>\<forall>j. k < j \<and> j \<le> length (items a)
        \<longrightarrow> mx < estimateTokensFromObject (payload_json (cut_page c a j))\<close>
    show ?thesis
      by (intro exI [of _ 0]) simp
  qed
qed

text \<open>
  C3 (envelope safety net), as amended. Let \<open>a\<close> be the payload as assembled and \<open>p\<close> the
  page returned, with \<open>k\<close> items. They are the first \<open>k\<close> items of \<open>a\<close>; every envelope
  cut to more than \<open>k\<close> items exceeds the budget, and the one cut to \<open>k\<close> items fits
  unless \<open>k = 0\<close>. When an item was dropped the page announces more, is marked truncated,
  counts \<open>k\<close> items and its next cursor decodes to the input offset plus \<open>k\<close>, which is the
  unchanged input offset when the page is empty. The notice is included exactly when the
  page is empty and the envelope without items still exceeds the budget; without the
  notice the returned envelope fits the budget. So a page emptied by the safety net
  carries no notice when the envelope without items fits.
\<close>

theorem envelope_safety_net:
  assumes "a = assemble_page sid ps cur c mx rf msgs"
    and "p = build_page sid ps cur c mx rf msgs"
  shows "items p = take (length (items p)) (items a)
       \<and> length (items p) \<le> length (items a)
       \<and> (\<forall>j. length (items p) < j \<and> j \<le> length (items a)
             \<longrightarrow> mx < estimateTokensFromObject (payload_json (cut_page c a j)))
       \<and> (items p = []
           \<or> estimateTokensFromObject (payload_json (cut_page c a (length (items p)))) \<le> mx)
       \<and> (length (items p) < length (items a)
             \<longrightarrow> has_more p \<and> truncated p \<and> returned p = length (items p)
               \<and> decodeCursor (next_cursor p) = Inr \<lparr>offset = c + length (items p)\<rparr>)
       \<and> ((notice p \<noteq> None)
             = (items p = [] \<and> mx < estimateTokensFromObject (payload_json (cut_page c a 0))))
       \<and> (notice p \<noteq> None
             \<longrightarrow> notice p = Some budget_notice \<and> has_more p \<and> truncated p
               \<and> decodeCursor (next_cursor p) = Inr \<lparr>offset = c\<rparr>)
       \<and> (notice p = None \<longrightarrow> estimateTokensFromObject (payload_json p) \<le> mx)"
proof -
  obtain k where k: "k \<le> length (items a)" "items p = take k (items a)"
    and rest:
      "\<forall>j. k < j \<and> j \<le> length (items a)
           \<longrightarrow> mx < estimateTokensFromObject (payload_json (cut_page c a j))"
      "k = 0 \<or> estimateTokensFromObject (payload_json (cut_page c a k)) \<le> mx"
      "k < length (items a)
           \<longrightarrow> has_more p \<and> truncated p \<and> returned p = k
             \<and> decodeCursor (next_cursor p) = Inr \<lparr>offset = c + k\<rparr>"
      "(notice p \<noteq> None)
           = (k = 0 \<and> mx < estimateTokensFromObject (payload_json (cut_page c a 0)))"
      "notice p \<noteq> None
           \<longrightarrow> notice p = Some budget_notice \<and> has_more p \<and> truncated p
             \<and> decodeCursor (next_cursor p) = Inr \<lparr>offset = c\<rparr>"
      "notice p = None \<longrightarrow> estimateTokensFromObject (payload_json p) \<le> mx"
    using safety_net_cut [OF assms] by (elim exE conjE) (rule that)
  have len: "length (items p) = k"
    using k by simp
  have empty: "(items p = []) = (k = 0)"
    using len by (metis length_0_conv)
  show ?thesis
    unfolding len empty using k rest by (intro conjI) assumption+
qed

theorem envelope_safety_net_witness:
  "length (items (assemble_page ''ses_1'' 6 None 0 100 [''*''] example_history)) = 5
   \<and> items (build_page ''ses_1'' 6 None 0 100 [''*''] example_history)
       = [example_message ''m0'' ''zero'']
   \<and> has_more (build_page ''ses_1'' 6 None 0 100 [''*''] example_history)
   \<and> truncated (build_page ''ses_1'' 6 None 0 100 [''*''] example_history)
   \<and> decodeCursor (next_cursor (build_page ''ses_1'' 6 None 0 100 [''*''] example_history))
       = Inr \<lparr>offset = 1\<rparr>
   \<and> estimateTokensFromObject
         (payload_json (build_page ''ses_1'' 6 None 0 100 [''*''] example_history)) \<le> 100"
proof -
  let ?a = "assemble_page ''ses_1'' 6 None 0 100 [''*''] example_history"
  let ?p = "build_page ''ses_1'' 6 None 0 100 [''*''] example_history"
  have n: "length (items ?a) = 5"
    by code_simp
  have i: "items ?p = [example_message ''m0'' ''zero'']"
    by code_simp
  have nn: "notice ?p = None"
    by code_simp
  note th = envelope_safety_net [OF refl refl, of "''ses_1''" 6 None 0 100 "[''*'']" example_history]
  from th have "length (items ?p) < length (items ?a)
      \<longrightarrow> has_more ?p \<and> truncated ?p \<and> returned ?p = length (items ?p)
        \<and> decodeCursor (next_cursor ?p) = Inr \<lparr>offset = 0 + length (items ?p)\<rparr>"
    by (elim conjE)
  with n i have "has_more ?p \<and> truncated ?p \<and> decodeCursor (next_cursor ?p) = Inr \<lparr>offset = 1\<rparr>"
    by simp
  moreover from th have "notice ?p = None \<longrightarrow> estimateTokensFromObject (payload_json ?p) \<le> 100"
    by (elim conjE)
  with nn have "estimateTokensFromObject (payload_json ?p) \<le> 100"
    by simp
  ultimately show ?thesis
    using n i by simp
qed

theorem empty_page_without_notice:
  "map_sum id (\<lambda>p. (items p, notice p, has_more p, truncated p, next_cursor p,
                      estimateTokensFromObject (payload_json p) \<le> 80))
     (fst (opencode_get_messages (serve_history example_history) (example_args 2 80) []))
   = Inr ([], None, True, True, Some (encodeCursor \<lparr>offset = 0\<rparr>), True)"
  by code_simp

section \<open>Truncation by the budget loop\<close>

text \<open>
  The incremental estimate exceeds the budget inside the page: some candidate list of
  the budget loop that holds more than one item, the first \<open>j + 1\<close> items with \<open>j \<ge> 1\<close>,
  is estimated above the budget.
\<close>

definition estimate_exceeds_mid_page :: "nat \<Rightarrow> json list \<Rightarrow> bool" where
  "estimate_exceeds_mid_page maxOutputTokens page =
     list_ex (\<lambda>j. maxOutputTokens < estimateTokensFromString (stringify (JArr (take (Suc j) page))))
       [1..<length page]"

lemma budget_loop_flag_nonempty:
  "acc \<noteq> [] \<Longrightarrow>
   snd (budget_loop mx acc xs)
     = (\<exists>j<length xs. mx < estimateTokensFromString (stringify (JArr (acc @ take (Suc j) xs))))"
proof (induction xs arbitrary: acc)
  case Nil
  then show ?case by simp
next
  case (Cons x xs)
  show ?case
  proof (cases "estimateTokensFromString (stringify (JArr (acc @ [x]))) \<le> mx")
    case True
    have "snd (budget_loop mx acc (x # xs)) = snd (budget_loop mx (acc @ [x]) xs)"
      using True by (simp add: Let_def)
    also have "\<dots> = (\<exists>j<length xs.
        mx < estimateTokensFromString (stringify (JArr ((acc @ [x]) @ take (Suc j) xs))))"
      by (rule Cons.IH) simp
    also have "\<dots> = (\<exists>j<length (x # xs).
        mx < estimateTokensFromString (stringify (JArr (acc @ take (Suc j) (x # xs)))))"
    proof
      assume "\<exists>j<length xs.
        mx < estimateTokensFromString (stringify (JArr ((acc @ [x]) @ take (Suc j) xs)))"
      then obtain j where "j < length xs"
        "mx < estimateTokensFromString (stringify (JArr ((acc @ [x]) @ take (Suc j) xs)))"
        by blast
      then show "\<exists>j<length (x # xs).
        mx < estimateTokensFromString (stringify (JArr (acc @ take (Suc j) (x # xs))))"
        by (intro exI [of _ "Suc j"]) simp
    next
      assume "\<exists>j<length (x # xs).
        mx < estimateTokensFromString (stringify (JArr (acc @ take (Suc j) (x # xs))))"
      then obtain j where j: "j < length (x # xs)"
        "mx < estimateTokensFromString (stringify (JArr (acc @ take (Suc j) (x # xs))))"
        by blast
      with True obtain i where "j = Suc i"
        by (cases j) auto
      with j show "\<exists>j<length xs.
        mx < estimateTokensFromString (stringify (JArr ((acc @ [x]) @ take (Suc j) xs)))"
        by (intro exI [of _ i]) simp
    qed
    finally show ?thesis .
  next
    case False
    then have "snd (budget_loop mx acc (x # xs))"
      using Cons.prems by (simp add: Let_def)
    moreover have "\<exists>j<length (x # xs).
        mx < estimateTokensFromString (stringify (JArr (acc @ take (Suc j) (x # xs))))"
      using False by (intro exI [of _ 0]) simp
    ultimately show ?thesis by simp
  qed
qed

text \<open>\<^verbatim>\<open>truncatedByBudget\<close> is set exactly when the estimate exceeds the budget inside the page.\<close>

lemma budget_loop_flag: "snd (budget_loop mx [] page) = estimate_exceeds_mid_page mx page"
proof (cases page)
  case Nil
  then show ?thesis by (simp add: estimate_exceeds_mid_page_def)
next
  case (Cons x xs)
  have "snd (budget_loop mx [] page) = snd (budget_loop mx [x] xs)"
    using Cons by (simp add: Let_def)
  also have "\<dots> = (\<exists>j<length xs.
      mx < estimateTokensFromString (stringify (JArr ([x] @ take (Suc j) xs))))"
    by (rule budget_loop_flag_nonempty) simp
  also have "\<dots> = (\<exists>j\<in>set [1..<length page].
      mx < estimateTokensFromString (stringify (JArr (take (Suc j) page))))"
  proof
    assume "\<exists>j<length xs. mx < estimateTokensFromString (stringify (JArr ([x] @ take (Suc j) xs)))"
    then obtain j where "j < length xs"
      "mx < estimateTokensFromString (stringify (JArr ([x] @ take (Suc j) xs)))"
      by blast
    then show "\<exists>j\<in>set [1..<length page].
      mx < estimateTokensFromString (stringify (JArr (take (Suc j) page)))"
      using Cons by (intro bexI [of _ "Suc j"]) auto
  next
    assume "\<exists>j\<in>set [1..<length page].
      mx < estimateTokensFromString (stringify (JArr (take (Suc j) page)))"
    then obtain j where j: "1 \<le> j" "j < length page"
      "mx < estimateTokensFromString (stringify (JArr (take (Suc j) page)))"
      by auto
    then obtain i where "j = Suc i"
      by (cases j) auto
    with j Cons show "\<exists>j<length xs.
      mx < estimateTokensFromString (stringify (JArr ([x] @ take (Suc j) xs)))"
      by (intro exI [of _ i]) simp
  qed
  finally show ?thesis
    by (simp add: estimate_exceeds_mid_page_def list_ex_iff)
qed

lemma assemble_page_truncated_iff:
  "truncated (assemble_page sid ps cur c mx rf msgs)
     = estimate_exceeds_mid_page mx (projected_page ps c rf msgs)"
  by (simp add: assemble_page_items budget_loop_flag)

text \<open>The safety net keeps an item when the envelope cut to the first item fits the budget.\<close>

lemma first_item_survives:
  assumes "items (assemble_page sid ps cur c mx rf msgs) \<noteq> []"
    and "estimateTokensFromObject
           (payload_json (cut_page c (assemble_page sid ps cur c mx rf msgs) 1)) \<le> mx"
  shows "items (build_page sid ps cur c mx rf msgs) \<noteq> []"
proof -
  let ?a = "assemble_page sid ps cur c mx rf msgs"
  obtain k where k: "k \<le> length (items ?a)"
    and q: "shrink_to_budget mx c ?a = cut_page c ?a k"
    and over: "\<forall>j. k < j \<and> j \<le> length (items ?a)
        \<longrightarrow> mx < estimateTokensFromObject (payload_json (cut_page c ?a j))"
    and fits: "estimateTokensFromObject (payload_json (cut_page c ?a k)) \<le> mx \<or> k = 0"
    using shrink_to_budget_spec [of ?a mx c] by blast
  have one: "1 \<le> length (items ?a)"
    using assms(1) by (cases "items ?a") simp_all
  have "k \<noteq> 0"
  proof
    assume "k = 0"
    with over one have "mx < estimateTokensFromObject (payload_json (cut_page c ?a 1))"
      by simp
    with assms(2) show False by simp
  qed
  with fits have fit: "estimateTokensFromObject (payload_json (cut_page c ?a k)) \<le> mx"
    by simp
  have "build_page sid ps cur c mx rf msgs = cut_page c ?a k"
    using q fit by (simp add: build_page_def give_up_if_over_def)
  then have "items (build_page sid ps cur c mx rf msgs) = take k (items ?a)"
    by (simp add: items_cut_page)
  with \<open>k \<noteq> 0\<close> assms(1) show ?thesis
    by simp
qed


text \<open>
  C2 (budget truncation progress), as amended. When the incremental estimate exceeds the
  budget inside the page, the budget loop has kept at least one item and has set
  \<^verbatim>\<open>truncatedByBudget\<close>; the page that is returned is marked truncated, announces more,
  counts the items it holds, and its next cursor decodes to the input offset plus the
  number of items it holds. The page holds at least one item unless the envelope that
  holds the first item alone exceeds the budget, and it holds every item the budget loop
  kept when the assembled envelope fits the budget.
\<close>

theorem budget_truncation_progress:
  assumes "estimate_exceeds_mid_page mx (projected_page ps c rf msgs)"
  shows "items (assemble_page sid ps cur c mx rf msgs) \<noteq> []
       \<and> truncated (assemble_page sid ps cur c mx rf msgs)
       \<and> truncated (build_page sid ps cur c mx rf msgs)
       \<and> has_more (build_page sid ps cur c mx rf msgs)
       \<and> returned (build_page sid ps cur c mx rf msgs)
           = length (items (build_page sid ps cur c mx rf msgs))
       \<and> decodeCursor (next_cursor (build_page sid ps cur c mx rf msgs))
           = Inr \<lparr>offset = c + length (items (build_page sid ps cur c mx rf msgs))\<rparr>
       \<and> (estimateTokensFromObject
             (payload_json (cut_page c (assemble_page sid ps cur c mx rf msgs) 1)) \<le> mx
            \<longrightarrow> items (build_page sid ps cur c mx rf msgs) \<noteq> [])
       \<and> (estimateTokensFromObject (payload_json (assemble_page sid ps cur c mx rf msgs)) \<le> mx
            \<longrightarrow> items (build_page sid ps cur c mx rf msgs)
                = items (assemble_page sid ps cur c mx rf msgs))"
proof -
  let ?a = "assemble_page sid ps cur c mx rf msgs"
  let ?p = "build_page sid ps cur c mx rf msgs"
  have tr: "truncated ?a"
    using assms by (simp add: assemble_page_truncated_iff)
  have "resumes_after_items c ?a"
    using tr by (rule assemble_page_truncated)
  then have "resumes_after_items c (shrink_to_budget mx c ?a)"
    by (rule shrink_resumes)
  then have r: "resumes_after_items c ?p"
    unfolding build_page_alt by (rule give_up_resumes)
  have ne: "items ?a \<noteq> []"
    using tr by (rule assemble_page_truncated)
  from r have flags: "truncated ?p" "has_more ?p" "returned ?p = length (items ?p)"
    by (simp_all add: resumes_after_items_def)
  from r have dec: "decodeCursor (next_cursor ?p) = Inr \<lparr>offset = c + length (items ?p)\<rparr>"
    by (rule decode_next_cursor)
  have first: "estimateTokensFromObject (payload_json (cut_page c ?a 1)) \<le> mx
      \<longrightarrow> items ?p \<noteq> []"
    using first_item_survives [OF ne] by blast
  have whole: "estimateTokensFromObject (payload_json ?a) \<le> mx \<longrightarrow> items ?p = items ?a"
    by (simp add: build_page_fits_unchanged)
  from ne tr flags dec first whole show ?thesis
    by (intro conjI) assumption+
qed

theorem budget_truncation_progress_witness:
  "estimate_exceeds_mid_page 100 (projected_page 6 0 [''*''] example_history)
   \<and> length (items (assemble_page ''ses_1'' 6 None 0 100 [''*''] example_history)) = 5
   \<and> truncated (build_page ''ses_1'' 6 None 0 100 [''*''] example_history)
   \<and> has_more (build_page ''ses_1'' 6 None 0 100 [''*''] example_history)
   \<and> items (build_page ''ses_1'' 6 None 0 100 [''*''] example_history)
       = [example_message ''m0'' ''zero'']
   \<and> decodeCursor (next_cursor (build_page ''ses_1'' 6 None 0 100 [''*''] example_history))
       = Inr \<lparr>offset = 1\<rparr>"
proof -
  let ?a = "assemble_page ''ses_1'' 6 None 0 100 [''*''] example_history"
  let ?p = "build_page ''ses_1'' 6 None 0 100 [''*''] example_history"
  have over: "estimate_exceeds_mid_page 100 (projected_page 6 0 [''*''] example_history)"
    by code_simp
  have n: "length (items ?a) = 5"
    by code_simp
  have i: "items ?p = [example_message ''m0'' ''zero'']"
    by code_simp
  note th = budget_truncation_progress [OF over, of "''ses_1''" None]
  from th have t: "truncated ?p"
    by (elim conjE)
  from th have h: "has_more ?p"
    by (elim conjE)
  from th have "decodeCursor (next_cursor ?p) = Inr \<lparr>offset = 0 + length (items ?p)\<rparr>"
    by (elim conjE)
  with t h over n i show ?thesis
    by simp
qed

theorem budget_truncation_returns_nothing:
  "estimate_exceeds_mid_page 30 (projected_page 2 0 [''*''] (take 3 example_history))
   \<and> map_sum id items (fst (opencode_get_messages (serve_history example_history)
         (example_args 2 30) []))
       = Inr []"
  by code_simp

section \<open>Paging through a session\<close>























end
